theory Spec2Isabelle
  imports Main "HOL-Library.Word" "HOL-Library.Code_Target_Nat"
begin

unbundle bit_operations_syntax

section \<open>Common primitives: bytes, errno, the message object\<close>

type_synonym byte = "8 word"

text \<open>
  The C library's \<open>errno\<close>, restricted to the codes the two translation units set or
  test.  A function that returns \<open>-1\<close> without assigning \<open>errno\<close> leaves the old value
  in place, so \<open>errno\<close> is threaded through the state records below.
\<close>

datatype errno_t = EAGAIN | ENOMEM | EFAULT | EMSGSIZE | EPROTO | ENONE

text \<open>
  \<open>memcpy (t + off, bs, length bs)\<close> on a buffer \<open>t\<close>: the bytes before \<open>off\<close> and
  after \<open>off + length bs\<close> are kept.
\<close>

definition write_at :: "'a list \<Rightarrow> nat \<Rightarrow> 'a list \<Rightarrow> 'a list" where
  "write_at t off bs = take off t @ bs @ drop (off + length bs) t"

text \<open>
  Modelled from the spec: \<open>msg_t\<close> (msg.hpp, msg.cpp) is not among the sources.  The
  specification's data model gives a message a flag set and a payload that is
  uninitialized, empty, owned (an exclusive allocation of exactly \<open>size\<close> bytes) or
  shared (a view of \<open>size\<close> bytes of the arena), with the lifecycle
  \<open>init\<close>, \<open>init_size\<close>, \<open>init\<close> from the arena, \<open>close\<close>.  The only failure the
  specification names is the allocation failure of \<open>init_size\<close> (\<open>OutOfMemory\<close>,
  \<open>errno = ENOMEM\<close>).  A result \<open>Inl e\<close> stands for a return value \<open>-1\<close> with
  \<open>errno = e\<close>, a result \<open>Inr m\<close> for a return value \<open>0\<close> and the new message.
\<close>

datatype payload_t = uninitialized | empty_payload | owned | shared

record msg_t =
  payload :: payload_t
  flags :: byte
  data :: "byte list"

definition msg_size :: "msg_t \<Rightarrow> nat" where
  "msg_size m = length (data m)"

definition empty_msg :: msg_t where
  "empty_msg = \<lparr>payload = empty_payload, flags = 0, data = []\<rparr>"

definition closed_msg :: msg_t where
  "closed_msg = \<lparr>payload = uninitialized, flags = 0, data = []\<rparr>"

definition msg_init :: "msg_t \<Rightarrow> errno_t + msg_t" where
  "msg_init m = Inr empty_msg"

text \<open>
  \<open>init_size (n)\<close>: the first argument says whether the allocator can serve the
  request.  The contents of a fresh allocation are unspecified in C; they are
  modelled as zero bytes, and every byte is overwritten before a message is used.
  A failed call leaves the message as it was.
\<close>

definition msg_init_size :: "bool \<Rightarrow> nat \<Rightarrow> msg_t \<Rightarrow> errno_t + msg_t" where
  "msg_init_size alloc_ok n m =
     (if alloc_ok then Inr \<lparr>payload = owned, flags = 0, data = replicate n 0\<rparr>
      else Inl ENOMEM)"

text \<open>
  \<open>init (data, size, ffn, hint, content)\<close>: a message over the \<open>n\<close> bytes of memory
  at the read position of the arena.  \<open>window\<close> holds the bytes from that position to
  the end of the arena; a view of more than \<open>length window\<close> bytes reaches memory
  behind the arena, whose contents are not known and are rendered as zero bytes.
  \<open>copied\<close> says whether the message object copies a payload of this size into its
  own storage instead of referencing the arena, which is what the decoder's comment
  "for small messages, data has been copied" refers to.
\<close>

definition msg_init_arena :: "bool \<Rightarrow> byte list \<Rightarrow> nat \<Rightarrow> msg_t \<Rightarrow> errno_t + msg_t" where
  "msg_init_arena copied window n m =
     Inr \<lparr>payload = (if copied then owned else shared), flags = 0,
          data = take n window @ replicate (n - length window) 0\<rparr>"

definition msg_close :: "msg_t \<Rightarrow> errno_t + msg_t" where
  "msg_close m = Inr closed_msg"

definition msg_is_zcmsg :: "msg_t \<Rightarrow> bool" where
  "msg_is_zcmsg m = (payload m = shared)"

definition msg_set_flags :: "byte \<Rightarrow> msg_t \<Rightarrow> msg_t" where
  "msg_set_flags f m = m\<lparr>flags := flags m OR f\<rparr>"

text \<open>Modelled from the spec: the flag bits of \<open>msg_t\<close> (msg.hpp is not among the sources).\<close>

definition msg_more :: byte where "msg_more = 1"
definition msg_command :: byte where "msg_command = 2"

section \<open>The PLAIN client mechanism (plain_client.cpp)\<close>

datatype state_t =
    sending_hello
  | waiting_for_welcome
  | sending_initiate
  | waiting_for_ready
  | error_command_received
  | ready

datatype status_t = mechanism_handshaking | mechanism_ready | mechanism_error

text \<open>
  What the client hands to its session: the protocol error codes passed to
  \<open>event_handshake_failed_protocol\<close>, and the reason passed to
  \<open>handle_error_reason\<close> (mechanism_base.cpp, not among the sources; the call is
  recorded with its argument).
\<close>

datatype event_t =
    ZMTP_UNEXPECTED_COMMAND
  | ZMTP_MALFORMED_COMMAND_WELCOME
  | ZMTP_MALFORMED_COMMAND_ERROR
  | ZMTP_INVALID_METADATA
  | error_reason "byte list"

record plain_client_t =
  state :: state_t
  plain_username :: "byte list"
  plain_password :: "byte list"
  events :: "event_t list"
  errno :: errno_t

text \<open>
  The collaborators of the mechanism that are not among the sources, taken as
  parameters: \<open>parse_metadata\<close> (mechanism.cpp; \<open>Inl e\<close> is a return value \<open>-1\<close> with
  \<open>errno = e\<close>) and \<open>make_command_with_basic_properties\<close> (mechanism_base.cpp), which
  builds the message from the command prefix.
\<close>

record mechanism_env =
  parse_metadata :: "byte list \<Rightarrow> errno_t + unit"
  make_command_with_basic_properties :: "byte list \<Rightarrow> msg_t \<Rightarrow> msg_t"

definition plain_client_init :: "byte list \<Rightarrow> byte list \<Rightarrow> errno_t \<Rightarrow> plain_client_t" where
  "plain_client_init username password e =
     \<lparr>state = sending_hello, plain_username = username, plain_password = password,
      events = [], errno = e\<rparr>"

definition hello_prefix :: "byte list" where
  "hello_prefix = [0x05, 0x48, 0x45, 0x4C, 0x4C, 0x4F]"

definition welcome_prefix :: "byte list" where
  "welcome_prefix = [0x07, 0x57, 0x45, 0x4C, 0x43, 0x4F, 0x4D, 0x45]"

definition ready_prefix :: "byte list" where
  "ready_prefix = [0x05, 0x52, 0x45, 0x41, 0x44, 0x59]"

definition error_prefix :: "byte list" where
  "error_prefix = [0x05, 0x45, 0x52, 0x52, 0x4F, 0x52]"

definition initiate_prefix :: "byte list" where
  "initiate_prefix = [0x08, 0x49, 0x4E, 0x49, 0x54, 0x49, 0x41, 0x54, 0x45]"

text \<open>
  \<open>produce_hello\<close>.  The result is the return code and the message; the function is
  \<open>const\<close> and assigns neither the state nor \<open>errno\<close> itself (a failing \<open>init_size\<close>
  sets \<open>errno\<close>, returned as the third component).
\<close>

definition produce_hello ::
  "bool \<Rightarrow> plain_client_t \<Rightarrow> msg_t \<Rightarrow> int \<times> msg_t \<times> errno_t" where
  "produce_hello alloc_ok c msg =
     (let username = plain_username c in
      if \<not> length username < 256 then (-1, msg, errno c)
      else
        let password = plain_password c in
        if \<not> length password < 256 then (-1, msg, errno c)
        else
          let command_size = 6 + 1 + length username + 1 + length password in
          case msg_init_size alloc_ok command_size msg of
            Inl e \<Rightarrow> (-1, msg, e)
          | Inr m \<Rightarrow>
              let buf = write_at (data m) 0 hello_prefix;
                  ptr = 6;
                  buf = write_at buf ptr [of_nat (length username)];
                  ptr = ptr + 1;
                  buf = write_at buf ptr username;
                  ptr = ptr + length username;
                  buf = write_at buf ptr [of_nat (length password)];
                  ptr = ptr + 1;
                  buf = write_at buf ptr password
              in (0, m\<lparr>data := buf\<rparr>, errno c))"

definition produce_initiate ::
  "mechanism_env \<Rightarrow> plain_client_t \<Rightarrow> msg_t \<Rightarrow> int \<times> msg_t" where
  "produce_initiate env c msg =
     (0, make_command_with_basic_properties env initiate_prefix msg)"

definition next_handshake_command ::
  "mechanism_env \<Rightarrow> bool \<Rightarrow> plain_client_t \<Rightarrow> msg_t \<Rightarrow> int \<times> msg_t \<times> plain_client_t" where
  "next_handshake_command env alloc_ok c msg =
     (case state c of
        sending_hello \<Rightarrow>
          (case produce_hello alloc_ok c msg of
             (rc, m, e) \<Rightarrow>
               (rc, m, if rc = 0 then c\<lparr>state := waiting_for_welcome, errno := e\<rparr>
                       else c\<lparr>errno := e\<rparr>))
      | sending_initiate \<Rightarrow>
          (case produce_initiate env c msg of
             (rc, m) \<Rightarrow> (rc, m, if rc = 0 then c\<lparr>state := waiting_for_ready\<rparr> else c))
      | _ \<Rightarrow> (-1, msg, c\<lparr>errno := EAGAIN\<rparr>))"

definition protocol_error :: "event_t \<Rightarrow> plain_client_t \<Rightarrow> plain_client_t" where
  "protocol_error ev c = c\<lparr>events := events c @ [ev], errno := EPROTO\<rparr>"

definition process_welcome :: "plain_client_t \<Rightarrow> byte list \<Rightarrow> nat \<Rightarrow> int \<times> plain_client_t" where
  "process_welcome c cmd_data data_size =
     (if state c \<noteq> waiting_for_welcome then (-1, protocol_error ZMTP_UNEXPECTED_COMMAND c)
      else if data_size \<noteq> 8 then (-1, protocol_error ZMTP_MALFORMED_COMMAND_WELCOME c)
      else (0, c\<lparr>state := sending_initiate\<rparr>))"

definition process_ready ::
  "mechanism_env \<Rightarrow> plain_client_t \<Rightarrow> byte list \<Rightarrow> nat \<Rightarrow> int \<times> plain_client_t" where
  "process_ready env c cmd_data data_size =
     (if state c \<noteq> waiting_for_ready then (-1, protocol_error ZMTP_UNEXPECTED_COMMAND c)
      else
        case parse_metadata env (take (data_size - 6) (drop 6 cmd_data)) of
          Inr _ \<Rightarrow> (0, c\<lparr>state := ready\<rparr>)
        | Inl e \<Rightarrow> (-1, c\<lparr>events := events c @ [ZMTP_INVALID_METADATA], errno := e\<rparr>))"

definition process_error :: "plain_client_t \<Rightarrow> byte list \<Rightarrow> nat \<Rightarrow> int \<times> plain_client_t" where
  "process_error c cmd_data data_size =
     (if state c \<noteq> waiting_for_welcome \<and> state c \<noteq> waiting_for_ready
      then (-1, protocol_error ZMTP_UNEXPECTED_COMMAND c)
      else if data_size < 7 then (-1, protocol_error ZMTP_MALFORMED_COMMAND_ERROR c)
      else
        let error_reason_len = unat (cmd_data ! 6) in
        if error_reason_len > data_size - 7
        then (-1, protocol_error ZMTP_MALFORMED_COMMAND_ERROR c)
        else
          (0, c\<lparr>events := events c @ [error_reason (take error_reason_len (drop 7 cmd_data))],
                state := error_command_received\<rparr>))"

definition process_handshake_command ::
  "mechanism_env \<Rightarrow> plain_client_t \<Rightarrow> msg_t \<Rightarrow> int \<times> msg_t \<times> plain_client_t" where
  "process_handshake_command env c msg =
     (let cmd_data = data msg;
          data_size = msg_size msg;
          (rc, c') =
            (if data_size \<ge> 8 \<and> take 8 cmd_data = welcome_prefix
             then process_welcome c cmd_data data_size
             else if data_size \<ge> 6 \<and> take 6 cmd_data = ready_prefix
             then process_ready env c cmd_data data_size
             else if data_size \<ge> 6 \<and> take 6 cmd_data = error_prefix
             then process_error c cmd_data data_size
             else (-1, protocol_error ZMTP_UNEXPECTED_COMMAND c))
      in if rc = 0 then
           (case msg_close msg of
              Inl e \<Rightarrow> (-1, msg, c'\<lparr>errno := e\<rparr>)
            | Inr m1 \<Rightarrow>
                (case msg_init m1 of
                   Inl e \<Rightarrow> (-1, m1, c'\<lparr>errno := e\<rparr>)
                 | Inr m2 \<Rightarrow> (0, m2, c')))
         else (rc, msg, c'))"

definition status :: "plain_client_t \<Rightarrow> status_t" where
  "status c =
     (if state c = ready then mechanism_ready
      else if state c = error_command_received then mechanism_error
      else mechanism_handshaking)"

section \<open>The v2 framing decoder (v2_decoder.cpp)\<close>

text \<open>
  Modelled from the spec: the wire flag bits of \<open>v2_protocol_t\<close> (v2_protocol.hpp is
  not among the sources): \<open>MORE = 0x01\<close>, \<open>LARGE = 0x02\<close>, \<open>COMMAND = 0x04\<close>.
\<close>

definition more_flag :: byte where "more_flag = 1"
definition large_flag :: byte where "large_flag = 2"
definition command_flag :: byte where "command_flag = 4"

text \<open>
  The member function the decoder base class calls when \<open>to_read\<close> reaches zero.
  \<open>null_step\<close> is the value of the pointer before the first \<open>next_step\<close>.
\<close>

datatype step_t =
    null_step
  | flags_ready_step
  | one_byte_size_ready_step
  | eight_byte_size_ready_step
  | message_ready_step

text \<open>
  \<open>read_pos\<close>, the address the next input bytes go to: an offset into \<open>tmpbuf\<close> or
  an offset into the payload of \<open>in_progress\<close>.
\<close>

datatype read_pos_t = in_tmpbuf nat | in_msg nat

text \<open>
  What the platform and the allocator decide: the width of \<open>size_t\<close>, whether an
  allocation of \<open>n\<close> bytes succeeds, and whether the message object copies an arena
  payload of \<open>n\<close> bytes instead of sharing it.
\<close>

record decoder_env =
  size_t_bits :: nat
  alloc_ok :: "nat \<Rightarrow> bool"
  arena_copied :: "nat \<Rightarrow> bool"

text \<open>
  The decoder object.  \<open>next_fn\<close>, \<open>read_pos\<close> and \<open>to_read\<close> are the fields of
  \<open>decoder_base_t\<close>; \<open>maxmsgsize\<close> is the \<open>int64_t\<close> limit in two's complement;
  \<open>refs\<close> counts the \<open>inc_ref\<close> calls on the arena; \<open>d_errno\<close> is \<open>errno\<close>.
\<close>

record v2_decoder_t =
  next_fn :: step_t
  read_pos :: read_pos_t
  to_read :: nat
  tmpbuf :: "byte list"
  msg_flags :: byte
  in_progress :: msg_t
  zero_copy :: bool
  maxmsgsize :: "64 word"
  refs :: nat
  d_errno :: errno_t

text \<open>The result of a step: a return value, or the failure of an \<open>assert\<close>.\<close>

datatype rc_t = Ret int | Abort

definition next_step :: "read_pos_t \<Rightarrow> nat \<Rightarrow> step_t \<Rightarrow> v2_decoder_t \<Rightarrow> v2_decoder_t" where
  "next_step pos n f d = d\<lparr>read_pos := pos, to_read := n, next_fn := f\<rparr>"

definition v2_decoder_init :: "64 word \<Rightarrow> bool \<Rightarrow> errno_t \<Rightarrow> v2_decoder_t" where
  "v2_decoder_init maxsz zc e =
     (let d = \<lparr>next_fn = null_step, read_pos = in_tmpbuf 0, to_read = 0,
                tmpbuf = replicate 8 0, msg_flags = 0, in_progress = closed_msg,
                zero_copy = zc, maxmsgsize = maxsz, refs = 0, d_errno = e\<rparr>
      in case msg_init (in_progress d) of
           Inl e' \<Rightarrow> d\<lparr>d_errno := e'\<rparr>
         | Inr m \<Rightarrow> next_step (in_tmpbuf 0) 1 flags_ready_step (d\<lparr>in_progress := m\<rparr>))"

text \<open>The message flags \<open>flags_ready\<close> derives from the wire flags byte.\<close>

definition wire_flags :: "byte \<Rightarrow> byte" where
  "wire_flags b =
     (let f = 0;
          f = (if b AND more_flag \<noteq> 0 then f OR msg_more else f);
          f = (if b AND command_flag \<noteq> 0 then f OR msg_command else f)
      in f)"

definition flags_ready :: "v2_decoder_t \<Rightarrow> rc_t \<times> v2_decoder_t" where
  "flags_ready d =
     (let d = d\<lparr>msg_flags := wire_flags (tmpbuf d ! 0)\<rparr> in
      if tmpbuf d ! 0 AND large_flag \<noteq> 0
      then (Ret 0, next_step (in_tmpbuf 0) 8 eight_byte_size_ready_step d)
      else (Ret 0, next_step (in_tmpbuf 0) 1 one_byte_size_ready_step d))"

text \<open>
  Addresses are natural numbers.  A pointer is as wide as \<open>size_t\<close> and holds an
  address below \<open>2 ^ size_t_bits\<close>; \<open>ptr_add\<close> is the sum of a pointer and an offset
  as the machine computes it, reduced modulo \<open>2 ^ size_t_bits\<close>.
\<close>

definition ptr_add :: "decoder_env \<Rightarrow> nat \<Rightarrow> nat \<Rightarrow> nat" where
  "ptr_add env p n = (p + n) mod 2 ^ size_t_bits env"

text \<open>
  \<open>size_ready\<close>.  \<open>read_from\<close> is the address of the read position in the arena and
  \<open>window\<close> holds the arena bytes from there to \<open>data () + size ()\<close>, so the end of
  the arena is \<open>read_from + length window\<close>.  The test
  \<open>(unsigned char *) read_pos + msg_size > data () + size ()\<close> compares two pointers;
  the sum on its left wraps when \<open>msg_size\<close> is large, and the test then fails although
  the payload is not in the window: the second branch builds a view of \<open>msg_size\<close>
  bytes that starts at the read position and runs past the end of the arena.
\<close>

definition size_ready ::
  "decoder_env \<Rightarrow> v2_decoder_t \<Rightarrow> 64 word \<Rightarrow> nat \<Rightarrow> byte list \<Rightarrow> rc_t \<times> v2_decoder_t" where
  "size_ready env d sz read_from window =
     (if 0 \<le> sint (maxmsgsize d) \<and> sz > maxmsgsize d
      then (Ret (-1), d\<lparr>d_errno := EMSGSIZE\<rparr>)
      else if sz \<noteq> take_bit (size_t_bits env) sz
      then (Ret (-1), d\<lparr>d_errno := EMSGSIZE\<rparr>)
      else
        case msg_close (in_progress d) of
          Inl e \<Rightarrow> (Abort, d\<lparr>d_errno := e\<rparr>)
        | Inr m0 \<Rightarrow>
            (case
               (if \<not> zero_copy d
                   \<or> ptr_add env read_from (unat sz) > ptr_add env read_from (length window)
                then (msg_init_size (alloc_ok env (unat sz)) (unat sz) m0, refs d)
                else
                  case msg_init_arena (arena_copied env (unat sz)) window (unat sz) m0 of
                    Inl e \<Rightarrow> (Inl e, refs d)
                  | Inr m \<Rightarrow> (Inr m, if msg_is_zcmsg m then refs d + 1 else refs d))
             of
               (Inl e, refs') \<Rightarrow>
                 if e \<noteq> ENOMEM
                 then (Ret (-1), d\<lparr>in_progress := m0, d_errno := e\<rparr>)
                 else
                   (case msg_init m0 of
                      Inl e' \<Rightarrow> (Ret (-1), d\<lparr>in_progress := m0, d_errno := e'\<rparr>)
                    | Inr m1 \<Rightarrow> (Ret (-1), d\<lparr>in_progress := m1, d_errno := ENOMEM\<rparr>))
             | (Inr m, refs') \<Rightarrow>
                 (Ret 0,
                  next_step (in_msg 0) (msg_size (msg_set_flags (msg_flags d) m))
                    message_ready_step
                    (d\<lparr>in_progress := msg_set_flags (msg_flags d) m, refs := refs'\<rparr>))))"

definition one_byte_size_ready ::
  "decoder_env \<Rightarrow> v2_decoder_t \<Rightarrow> nat \<Rightarrow> byte list \<Rightarrow> rc_t \<times> v2_decoder_t" where
  "one_byte_size_ready env d read_from window =
     size_ready env d (ucast (tmpbuf d ! 0)) read_from window"

text \<open>
  Modelled from the spec: \<open>get_uint64\<close> (wire.hpp) is not among the sources; the
  specification fixes the size header as a big-endian \<open>u64\<close>, most significant byte
  first.
\<close>

definition get_uint64 :: "byte list \<Rightarrow> 64 word" where
  "get_uint64 buffer =
     push_bit 56 (ucast (buffer ! 0)) OR push_bit 48 (ucast (buffer ! 1)) OR
     push_bit 40 (ucast (buffer ! 2)) OR push_bit 32 (ucast (buffer ! 3)) OR
     push_bit 24 (ucast (buffer ! 4)) OR push_bit 16 (ucast (buffer ! 5)) OR
     push_bit 8 (ucast (buffer ! 6)) OR ucast (buffer ! 7)"

definition eight_byte_size_ready ::
  "decoder_env \<Rightarrow> v2_decoder_t \<Rightarrow> nat \<Rightarrow> byte list \<Rightarrow> rc_t \<times> v2_decoder_t" where
  "eight_byte_size_ready env d read_from window =
     (let sz = get_uint64 (tmpbuf d) in size_ready env d sz read_from window)"

definition message_ready :: "v2_decoder_t \<Rightarrow> rc_t \<times> v2_decoder_t" where
  "message_ready d = (Ret 1, next_step (in_tmpbuf 0) 1 flags_ready_step d)"

text \<open>
  Modelled from the spec: \<open>decoder_base_t::decode\<close> (decoder.hpp) is not among the
  sources.  The specification describes a stage-dispatched consumer: the bytes of the
  input go to \<open>read_pos\<close> until the requested count is complete, then the registered
  step runs with the address of the next input byte; the call returns when a message
  is ready, on an error, or when the input is used up.  The input is the list of its
  bytes together with the address \<open>pos\<close> of the first of them.

  \<open>copy_bytes\<close> is the effect of taking input bytes at \<open>read_pos\<close>: afterwards the
  bytes at \<open>read_pos\<close> are the input bytes, whether they were copied there or were
  there already (a payload that is a view of the window is not copied onto itself).
  What a write through a view that runs past the end of the arena does to other
  objects is outside the model.
\<close>

definition call_next ::
  "decoder_env \<Rightarrow> v2_decoder_t \<Rightarrow> nat \<Rightarrow> byte list \<Rightarrow> rc_t \<times> v2_decoder_t" where
  "call_next env d read_from window =
     (case next_fn d of
        null_step \<Rightarrow> (Abort, d)
      | flags_ready_step \<Rightarrow> flags_ready d
      | one_byte_size_ready_step \<Rightarrow> one_byte_size_ready env d read_from window
      | eight_byte_size_ready_step \<Rightarrow> eight_byte_size_ready env d read_from window
      | message_ready_step \<Rightarrow> message_ready d)"

definition copy_bytes :: "v2_decoder_t \<Rightarrow> byte list \<Rightarrow> v2_decoder_t" where
  "copy_bytes d bs =
     (case read_pos d of
        in_tmpbuf off \<Rightarrow>
          d\<lparr>tmpbuf := write_at (tmpbuf d) off bs,
            read_pos := in_tmpbuf (off + length bs),
            to_read := to_read d - length bs\<rparr>
      | in_msg off \<Rightarrow>
          d\<lparr>in_progress := (in_progress d)\<lparr>data := write_at (data (in_progress d)) off bs\<rparr>,
            read_pos := in_msg (off + length bs),
            to_read := to_read d - length bs\<rparr>)"

definition step_rank :: "v2_decoder_t \<Rightarrow> nat" where
  "step_rank d =
     (if to_read d > 0 then 0
      else case next_fn d of
             one_byte_size_ready_step \<Rightarrow> 2
           | eight_byte_size_ready_step \<Rightarrow> 2
           | _ \<Rightarrow> 1)"

lemma size_ready_rank:
  "size_ready env d n a w = (Ret 0, d') \<Longrightarrow> next_fn d' = message_ready_step"
  by (auto simp: size_ready_def next_step_def msg_close_def msg_init_def Let_def
           split: if_splits sum.splits prod.splits)

lemma call_next_rank:
  assumes "call_next env d a w = (Ret 0, d')" and "to_read d = 0"
  shows "step_rank d' < step_rank d"
proof (cases "next_fn d")
  case flags_ready_step
  with assms show ?thesis
    by (auto simp: call_next_def flags_ready_def next_step_def step_rank_def Let_def
             split: if_splits)
next
  case one_byte_size_ready_step
  with assms have "next_fn d' = message_ready_step"
    by (auto simp: call_next_def one_byte_size_ready_def dest: size_ready_rank)
  with assms one_byte_size_ready_step show ?thesis by (simp add: step_rank_def)
next
  case eight_byte_size_ready_step
  with assms have "next_fn d' = message_ready_step"
    by (auto simp: call_next_def eight_byte_size_ready_def Let_def dest: size_ready_rank)
  with assms eight_byte_size_ready_step show ?thesis by (simp add: step_rank_def)
qed (use assms in \<open>auto simp: call_next_def message_ready_def\<close>)

function decode_loop ::
  "decoder_env \<Rightarrow> v2_decoder_t \<Rightarrow> nat \<Rightarrow> byte list \<Rightarrow> rc_t \<times> byte list \<times> v2_decoder_t" where
  "decode_loop env d pos input =
     (if to_read d = 0 then
        (case call_next env d pos input of
           (rc, d') \<Rightarrow> if rc \<noteq> Ret 0 then (rc, input, d') else decode_loop env d' pos input)
      else if input = [] then (Ret 0, [], d)
      else
        let to_copy = min (to_read d) (length input)
        in decode_loop env (copy_bytes d (take to_copy input)) (pos + to_copy)
             (drop to_copy input))"
  by pat_completeness auto
termination
  apply (relation "measure (\<lambda>(env, d, pos, input). 3 * length input + step_rank d)")
    apply simp
   apply (auto dest: call_next_rank [OF sym])[1]
  apply (auto simp: min_def step_rank_def copy_bytes_def
              split: step_t.splits read_pos_t.splits)
  done

declare decode_loop.simps [simp del]

text \<open>The public contract: the status and the number of input bytes consumed.\<close>

definition decode ::
  "decoder_env \<Rightarrow> v2_decoder_t \<Rightarrow> nat \<Rightarrow> byte list \<Rightarrow> rc_t \<times> nat \<times> v2_decoder_t" where
  "decode env d pos input =
     (case decode_loop env d pos input of
        (rc, rest, d') \<Rightarrow> (rc, length input - length rest, d'))"

lemma decode_loop_run:
  "to_read d = 0 \<Longrightarrow> call_next env d pos input = (Ret 0, d1) \<Longrightarrow>
   decode_loop env d pos input = decode_loop env d1 pos input"
  by (subst decode_loop.simps) simp

lemma decode_loop_stop:
  "to_read d = 0 \<Longrightarrow> call_next env d pos input = (r, d1) \<Longrightarrow> r \<noteq> Ret 0 \<Longrightarrow>
   decode_loop env d pos input = (r, input, d1)"
  by (subst decode_loop.simps) simp

lemma decode_loop_empty:
  "0 < to_read d \<Longrightarrow> decode_loop env d pos [] = (Ret 0, [], d)"
  by (subst decode_loop.simps) simp

lemma decode_loop_copy:
  "0 < to_read d \<Longrightarrow> input \<noteq> [] \<Longrightarrow>
   decode_loop env d pos input =
     decode_loop env (copy_bytes d (take (min (to_read d) (length input)) input))
       (pos + min (to_read d) (length input))
       (drop (min (to_read d) (length input)) input)"
  by (subst decode_loop.simps) (simp add: Let_def)

lemma decode_loop_rest:
  "decode_loop env d pos input = (rc, rest, d') \<Longrightarrow>
   (\<exists>used. input = used @ rest) \<and> (rc = Ret 1 \<longrightarrow> to_read d' = 1)
   \<and> (0 < to_read d \<and> input \<noteq> [] \<longrightarrow> length rest < length input)"
proof (induction env d pos input arbitrary: rc rest d' rule: decode_loop.induct)
  case (1 env d pos input)
  show ?case
  proof (cases "to_read d = 0")
    case True
    obtain r d1 where cn: "call_next env d pos input = (r, d1)"
      by (cases "call_next env d pos input")
    show ?thesis
    proof (cases "r = Ret 0")
      case False
      with True cn "1.prems" decode_loop_stop [of d env pos input r d1]
      have *: "rest = input" "rc = r" "d' = d1"
        by simp_all
      have "r = Ret 1 \<Longrightarrow> to_read d1 = 1"
        using cn True
        by (auto simp: call_next_def flags_ready_def message_ready_def next_step_def
                 one_byte_size_ready_def eight_byte_size_ready_def size_ready_def
                 msg_close_def msg_init_def Let_def
                 split: step_t.splits if_splits prod.splits sum.splits)
      with * True show ?thesis by simp
    next
      case r0: True
      with True cn "1.prems" decode_loop_run [of d env pos input d1]
      have "decode_loop env d1 pos input = (rc, rest, d')"
        by simp
      from "1.IH"(1) [OF True cn [symmetric] _ this] r0 True show ?thesis by simp
    qed
  next
    case False
    show ?thesis
    proof (cases "input = []")
      case True
      with False "1.prems" show ?thesis by (auto simp: decode_loop_empty)
    next
      case ne: False
      let ?k = "min (to_read d) (length input)"
      from False ne have k: "0 < ?k" by simp
      from False ne "1.prems" decode_loop_copy [of d input env pos]
      have "decode_loop env (copy_bytes d (take ?k input)) (pos + ?k) (drop ?k input)
              = (rc, rest, d')"
        by simp
      from "1.IH"(2) [OF False ne refl this]
      obtain used where u: "drop ?k input = used @ rest" and t: "rc = Ret 1 \<longrightarrow> to_read d' = 1"
        by blast
      from u have "input = (take ?k input @ used) @ rest"
        by (metis append.assoc append_take_drop_id)
      moreover from u have "length rest \<le> length input - ?k"
        by (metis length_append length_drop le_add2)
      with k ne have "length rest < length input" by (cases input) auto
      ultimately show ?thesis using t by blast
    qed
  qed
qed

lemma decode_used:
  assumes "decode env d pos input = (rc, used, d')"
  shows "used \<le> length input \<and> (rc = Ret 1 \<longrightarrow> to_read d' = 1)
         \<and> (0 < to_read d \<and> input \<noteq> [] \<longrightarrow> 0 < used)"
proof -
  obtain r rest d1 where dl0: "decode_loop env d pos input = (r, rest, d1)"
    by (cases "decode_loop env d pos input")
  with assms have dl: "decode_loop env d pos input = (rc, rest, d')"
    and u: "used = length input - length rest"
    by (simp_all add: decode_def)
  from decode_loop_rest [OF dl] u show ?thesis by auto
qed

text \<open>
  Modelled from the spec: the caller of \<open>decode\<close> (the session's receive loop) is not
  among the sources.  By the decoder's contract, after \<open>MessageReady\<close> the caller takes
  the message and calls again with the rest of the input; on completion the message
  is yielded and \<open>in_progress\<close> is reset; \<open>NeedMore\<close> and an error end the call.
  \<open>feed\<close> returns the messages yielded, the last status and the decoder.
\<close>

function feed ::
  "decoder_env \<Rightarrow> v2_decoder_t \<Rightarrow> nat \<Rightarrow> byte list \<Rightarrow> msg_t list \<times> rc_t \<times> v2_decoder_t" where
  "feed env d pos input =
     (if input = [] then ([], Ret 0, d)
      else
        case decode env d pos input of
          (rc, used, d') \<Rightarrow>
            if rc = Ret 1 then
              (case feed env (d'\<lparr>in_progress := empty_msg\<rparr>) (pos + used) (drop used input) of
                 (ms, rc', d'') \<Rightarrow> (in_progress d' # ms, rc', d''))
            else ([], rc, d'))"
  by pat_completeness auto
termination
proof (relation
    "measure (\<lambda>(env, d, pos, input). 2 * length input + (if to_read d = 0 then 1 else 0))")
  show "wf (measure (\<lambda>(env, d, pos, input).
              2 * length input + (if to_read d = 0 then 1 else 0)))"
    by simp
next
  fix env :: decoder_env and d :: v2_decoder_t and pos :: nat and input :: "byte list"
    and x :: rc_t and y :: "nat \<times> v2_decoder_t" and xa :: nat and ya :: v2_decoder_t
  assume ne: "input \<noteq> []" and a: "(x, y) = decode env d pos input" "(xa, ya) = y"
    and rc: "x = Ret 1"
  from a have dec: "decode env d pos input = (x, xa, ya)" by simp
  from decode_used [OF dec] rc ne
  have u: "xa \<le> length input" and t: "to_read ya = 1" and p: "0 < to_read d \<longrightarrow> 0 < xa"
    by auto
  have "2 * length (drop xa input) + (if to_read ya = 0 then 1 else 0)
          < 2 * length input + (if to_read d = 0 then 1 else 0)"
  proof (cases "to_read d = 0")
    case True
    with t u show ?thesis by simp
  next
    case False
    with p have "0 < xa" by simp
    moreover from ne have "0 < length input" by simp
    ultimately show ?thesis using t u by simp
  qed
  then show "((env, ya\<lparr>in_progress := empty_msg\<rparr>, pos + xa, drop xa input), env, d, pos, input)
          \<in> measure (\<lambda>(env, d, pos, input).
                2 * length input + (if to_read d = 0 then 1 else 0))"
    using t by simp
qed

declare feed.simps [simp del]

text \<open>
  The input arrives in chunks, each at the address where the transport stored it, one
  \<open>feed\<close> per chunk; an error is terminal.
\<close>

fun feed_chunks ::
  "decoder_env \<Rightarrow> v2_decoder_t \<Rightarrow> (nat \<times> byte list) list
     \<Rightarrow> msg_t list \<times> rc_t \<times> v2_decoder_t" where
  "feed_chunks env d [] = ([], Ret 0, d)"
| "feed_chunks env d (c # cs) =
     (case feed env d (fst c) (snd c) of
        (ms, rc, d') \<Rightarrow>
          if rc = Ret 0 then
            (case feed_chunks env d' cs of (ms', rc', d'') \<Rightarrow> (ms @ ms', rc', d''))
          else (ms, rc, d'))"

text \<open>What a receiver observes of a message: its flags, its size and its payload bytes.\<close>

definition msg_view :: "msg_t \<Rightarrow> byte \<times> nat \<times> byte list" where
  "msg_view m = (flags m, msg_size m, data m)"

section \<open>The framing of the specification, byte by byte\<close>

text \<open>
  The decoder state of the specification: the stage (await flags, await a one-byte or
  an eight-byte size, await the payload), the pending flags, and the bytes of the size
  header or of the payload received so far.  It consumes one byte at a time, so its
  result depends on the byte stream alone; the decoder of the source is compared with
  it below.  \<open>be_nat\<close> is the big-endian value of a byte sequence, and \<open>too_large\<close> is
  the size policy: over a nonnegative limit, or beyond \<open>size_t\<close>.
\<close>

datatype stage_t =
    AwaitFlags
  | AwaitSize1 byte
  | AwaitSize8 byte "byte list"
  | AwaitPayload byte nat "byte list"
  | Failed

definition be_nat :: "byte list \<Rightarrow> nat" where
  "be_nat bs = foldl (\<lambda>a b. 256 * a + unat b) 0 bs"

definition too_large :: "64 word \<Rightarrow> nat \<Rightarrow> nat \<Rightarrow> bool" where
  "too_large mx bits n = ((0 \<le> sint mx \<and> unat mx < n) \<or> 2 ^ bits \<le> n)"

definition ref_size ::
  "64 word \<Rightarrow> nat \<Rightarrow> byte \<Rightarrow> nat \<Rightarrow> (byte \<times> nat \<times> byte list) list \<times> stage_t" where
  "ref_size mx bits f n =
     (if too_large mx bits n then ([], Failed)
      else if n = 0 then ([(f, 0, [])], AwaitFlags)
      else ([], AwaitPayload f n []))"

fun ref_step ::
  "64 word \<Rightarrow> nat \<Rightarrow> stage_t \<Rightarrow> byte \<Rightarrow> (byte \<times> nat \<times> byte list) list \<times> stage_t" where
  "ref_step mx bits AwaitFlags b =
     ([], if b AND large_flag \<noteq> 0 then AwaitSize8 (wire_flags b) []
          else AwaitSize1 (wire_flags b))"
| "ref_step mx bits (AwaitSize1 f) b = ref_size mx bits f (unat b)"
| "ref_step mx bits (AwaitSize8 f acc) b =
     (if length acc + 1 < 8 then ([], AwaitSize8 f (acc @ [b]))
      else ref_size mx bits f (be_nat (acc @ [b])))"
| "ref_step mx bits (AwaitPayload f n acc) b =
     (if length acc + 1 < n then ([], AwaitPayload f n (acc @ [b]))
      else ([(f, n, acc @ [b])], AwaitFlags))"
| "ref_step mx bits Failed b = ([], Failed)"

fun ref_run ::
  "64 word \<Rightarrow> nat \<Rightarrow> stage_t \<Rightarrow> byte list \<Rightarrow> (byte \<times> nat \<times> byte list) list \<times> stage_t" where
  "ref_run mx bits st [] = ([], st)"
| "ref_run mx bits st (b # bs) =
     (case ref_step mx bits st b of
        (out, st') \<Rightarrow>
          (case ref_run mx bits st' bs of (out', st'') \<Rightarrow> (out @ out', st'')))"

text \<open>
  The payload sizes the framing accepts while it consumes the input: a size appears
  when the byte that completes a size header arrives and the size policy admits it.
  These are the sizes for which the decoder sets up a message.
\<close>

definition size_event :: "64 word \<Rightarrow> nat \<Rightarrow> stage_t \<Rightarrow> byte \<Rightarrow> nat list" where
  "size_event mx bits st b =
     (case st of
        AwaitSize1 f \<Rightarrow> (if too_large mx bits (unat b) then [] else [unat b])
      | AwaitSize8 f acc \<Rightarrow>
          (if length acc + 1 < 8 \<or> too_large mx bits (be_nat (acc @ [b])) then []
           else [be_nat (acc @ [b])])
      | _ \<Rightarrow> [])"

fun ref_sizes :: "64 word \<Rightarrow> nat \<Rightarrow> stage_t \<Rightarrow> byte list \<Rightarrow> nat list" where
  "ref_sizes mx bits st [] = []"
| "ref_sizes mx bits st (b # bs) =
     size_event mx bits st b @ ref_sizes mx bits (snd (ref_step mx bits st b)) bs"

text \<open>
  Modelled from the spec: the wire format of a frame (the encoder is not among the
  sources).  A frame is a flags byte and a payload; on the wire it is the flags byte,
  the payload size (one byte when \<open>LARGE\<close> is clear, eight bytes, most significant
  first, when it is set) and the payload.  It is well formed when the size field can
  hold the payload size.  \<open>frame_view\<close> is the message the frame stands for.
\<close>

type_synonym frame = "byte \<times> byte list"

fun be_bytes :: "nat \<Rightarrow> nat \<Rightarrow> byte list" where
  "be_bytes 0 n = []"
| "be_bytes (Suc k) n = be_bytes k (n div 256) @ [of_nat (n mod 256)]"

definition encode_frame :: "frame \<Rightarrow> byte list" where
  "encode_frame fr =
     fst fr # (if fst fr AND large_flag \<noteq> 0 then be_bytes 8 (length (snd fr))
               else [of_nat (length (snd fr))]) @ snd fr"

definition well_formed :: "frame \<Rightarrow> bool" where
  "well_formed fr =
     (if fst fr AND large_flag \<noteq> 0 then length (snd fr) < 2 ^ 64 else length (snd fr) < 256)"

definition frame_view :: "frame \<Rightarrow> byte \<times> nat \<times> byte list" where
  "frame_view fr = (wire_flags (fst fr), length (snd fr), snd fr)"

text \<open>
  \<open>dec_rel\<close> relates the decoder between two input bytes to the stage of the reference
  framing: the registered step, the count still to read, the read position, and the
  bytes already stored in \<open>tmpbuf\<close> or in the payload.
\<close>

definition dec_rel :: "64 word \<Rightarrow> v2_decoder_t \<Rightarrow> stage_t \<Rightarrow> bool" where
  "dec_rel mx d st =
     (maxmsgsize d = mx \<and> length (tmpbuf d) = 8 \<and>
      (case st of
         AwaitFlags \<Rightarrow>
           next_fn d = flags_ready_step \<and> to_read d = 1 \<and> read_pos d = in_tmpbuf 0
       | AwaitSize1 f \<Rightarrow>
           next_fn d = one_byte_size_ready_step \<and> to_read d = 1 \<and> read_pos d = in_tmpbuf 0
           \<and> msg_flags d = f
       | AwaitSize8 f acc \<Rightarrow>
           next_fn d = eight_byte_size_ready_step \<and> length acc < 8
           \<and> to_read d = 8 - length acc \<and> read_pos d = in_tmpbuf (length acc)
           \<and> take (length acc) (tmpbuf d) = acc \<and> msg_flags d = f
       | AwaitPayload f n acc \<Rightarrow>
           next_fn d = message_ready_step \<and> length acc < n
           \<and> to_read d = n - length acc \<and> read_pos d = in_msg (length acc)
           \<and> length (data (in_progress d)) = n
           \<and> take (length acc) (data (in_progress d)) = acc \<and> flags (in_progress d) = f
       | Failed \<Rightarrow> False))"

text \<open>
  \<open>sim\<close> describes one call of the decode loop from a related state: it used up the
  input without a message, or it completed the one message the reference framing
  completes on the consumed bytes, or it failed where the reference framing fails.
\<close>

definition sim ::
  "64 word \<Rightarrow> nat \<Rightarrow> stage_t \<Rightarrow> byte list \<Rightarrow> rc_t \<times> byte list \<times> v2_decoder_t \<Rightarrow> bool" where
  "sim mx bits st input res =
     (case res of
        (rc, rest, d') \<Rightarrow>
          (rc = Ret 0 \<and> rest = [] \<and> fst (ref_run mx bits st input) = []
             \<and> dec_rel mx d' (snd (ref_run mx bits st input)))
          \<or> (rc = Ret 1
               \<and> (\<exists>used. input = used @ rest
                     \<and> ref_run mx bits st used = ([msg_view (in_progress d')], AwaitFlags))
               \<and> dec_rel mx d' AwaitFlags)
          \<or> (rc = Ret (-1)
               \<and> (\<exists>used. input = used @ rest \<and> ref_run mx bits st used = ([], Failed))))"

text \<open>
  \<open>fed\<close> describes a run over a whole input: the messages yielded are those of the
  reference framing, and the run ends related to its stage, or failed where it fails.
\<close>

definition fed ::
  "64 word \<Rightarrow> nat \<Rightarrow> stage_t \<Rightarrow> byte list \<Rightarrow> msg_t list \<times> rc_t \<times> v2_decoder_t \<Rightarrow> bool" where
  "fed mx bits st input res =
     (case res of
        (ms, rc, d') \<Rightarrow>
          fst (ref_run mx bits st input) = map msg_view ms
          \<and> (rc = Ret 0 \<and> dec_rel mx d' (snd (ref_run mx bits st input))
              \<or> rc = Ret (-1) \<and> snd (ref_run mx bits st input) = Failed))"

text \<open>
  The decoder that has taken the flags byte \<open>fb\<close> (with \<open>LARGE\<close> set) and the first
  bytes \<open>acc\<close> of the size header, having been at a frame boundary in state \<open>d\<close>:
  \<open>flags_ready\<close> has run, and \<open>acc\<close> is in \<open>tmpbuf\<close>.  \<open>header_progress\<close> is the
  decoder after any prefix \<open>p\<close> of the flags byte and the size header.
\<close>

definition header_state :: "v2_decoder_t \<Rightarrow> byte \<Rightarrow> byte list \<Rightarrow> v2_decoder_t" where
  "header_state d fb acc =
     d\<lparr>next_fn := eight_byte_size_ready_step, read_pos := in_tmpbuf (length acc),
       to_read := 8 - length acc,
       tmpbuf := acc @ drop (length acc) (fb # drop 1 (tmpbuf d)),
       msg_flags := wire_flags fb\<rparr>"

definition header_progress :: "v2_decoder_t \<Rightarrow> byte list \<Rightarrow> v2_decoder_t" where
  "header_progress d p = (if p = [] then d else header_state d (hd p) (tl p))"

section \<open>Driving the PLAIN handshake\<close>

text \<open>
  The calls a session makes on the mechanism: \<open>next_handshake_command\<close> (with the
  allocator's answer for the outgoing message) and \<open>process_handshake_command\<close> on an
  inbound command with the given bytes.
\<close>

datatype call_t = next_command bool | process_command "byte list"

definition do_call :: "mechanism_env \<Rightarrow> plain_client_t \<Rightarrow> call_t \<Rightarrow> int \<times> plain_client_t" where
  "do_call env c call =
     (case call of
        next_command ok \<Rightarrow>
          (case next_handshake_command env ok c closed_msg of (rc, m, c') \<Rightarrow> (rc, c'))
      | process_command bs \<Rightarrow>
          (case process_handshake_command env c \<lparr>payload = owned, flags = msg_command, data = bs\<rparr> of
             (rc, m, c') \<Rightarrow> (rc, c')))"

fun handshake ::
  "mechanism_env \<Rightarrow> plain_client_t \<Rightarrow> call_t list \<Rightarrow> (call_t \<times> state_t \<times> state_t) list \<times> plain_client_t" where
  "handshake env c [] = ([], c)"
| "handshake env c (x # xs) =
     (case do_call env c x of
        (rc, c') \<Rightarrow>
          (case handshake env c' xs of
             (tr, c'') \<Rightarrow> ((if rc = 0 then [(x, state c, state c')] else []) @ tr, c'')))"

text \<open>
  \<open>handshake\<close> runs a sequence of calls and returns the successful ones, each with the
  state before and after it, and the final client.  \<open>path s tr\<close> says that \<open>tr\<close> is the
  remainder of the sequence HELLO, WELCOME, INITIATE, READY from state \<open>s\<close>, and
  \<open>allowed\<close> lists the transitions of the state machine with their commands.
\<close>

fun path :: "state_t \<Rightarrow> (call_t \<times> state_t \<times> state_t) list \<Rightarrow> bool" where
  "path sending_hello ((next_command ok, s, s') # tr) =
     (s = sending_hello \<and> s' = waiting_for_welcome \<and> path waiting_for_welcome tr)"
| "path waiting_for_welcome ((process_command w, s, s') # tr) =
     (s = waiting_for_welcome \<and> s' = sending_initiate \<and> path sending_initiate tr)"
| "path sending_initiate ((next_command ok, s, s') # tr) =
     (s = sending_initiate \<and> s' = waiting_for_ready \<and> path waiting_for_ready tr)"
| "path waiting_for_ready ((process_command r, s, s') # tr) =
     (s = waiting_for_ready \<and> s' = ready \<and> path ready tr)"
| "path ready tr = (tr = [])"
| "path _ _ = False"

definition allowed :: "mechanism_env \<Rightarrow> call_t \<times> state_t \<times> state_t \<Rightarrow> bool" where
  "allowed env t =
     (case t of
        (next_command ok, s, s') \<Rightarrow>
          (s = sending_hello \<and> s' = waiting_for_welcome) \<or>
          (s = sending_initiate \<and> s' = waiting_for_ready)
      | (process_command bs, s, s') \<Rightarrow>
          (bs = welcome_prefix \<and> s = waiting_for_welcome \<and> s' = sending_initiate) \<or>
          (take 6 bs = ready_prefix \<and> parse_metadata env (drop 6 bs) = Inr ()
             \<and> s = waiting_for_ready \<and> s' = ready) \<or>
          (take 6 bs = error_prefix \<and> (s = waiting_for_welcome \<or> s = waiting_for_ready)
             \<and> s' = error_command_received))"

section \<open>Properties of the PLAIN client\<close>

subsection \<open>The HELLO command\<close>

lemma hello_layout:
  assumes "length h = 6"
  shows "write_at (write_at (write_at (write_at (write_at
            (replicate (8 + length u + length p) x) 0 h) 6 [a]) 7 u) (7 + length u) [b])
            (8 + length u) p = h @ a # u @ b # p"
  using assms by (simp add: write_at_def)

lemma produce_hello_ok:
  assumes u: "length (plain_username c) < 256" and p: "length (plain_password c) < 256"
  shows "produce_hello True c msg =
           (0, \<lparr>payload = owned, flags = 0,
                data = hello_prefix @ [of_nat (length (plain_username c))] @ plain_username c
                         @ [of_nat (length (plain_password c))] @ plain_password c\<rparr>, errno c)"
proof -
  have len: "length hello_prefix = 6" by (simp add: hello_prefix_def)
  show ?thesis
    using u p unfolding produce_hello_def msg_init_size_def Let_def
    by (simp add: hello_layout [OF len])
qed

lemma byte_of_length: "n < 256 \<Longrightarrow> unat (of_nat n :: byte) = n"
  by (simp add: unat_of_nat)

text \<open>
  Claim C6.  For a username of length \<open>u < 256\<close> and a password of length \<open>p < 256\<close>,
  and an allocator that serves the request, \<open>produce_hello\<close> returns \<open>0\<close> with a message
  of exactly \<open>6 + 1 + u + 1 + p\<close> bytes: \<open>05 'H' 'E' 'L' 'L' 'O'\<close>, the byte \<open>u\<close>, the
  username, the byte \<open>p\<close>, the password.  In state \<open>sending_hello\<close> this is the message
  \<open>next_handshake_command\<close> writes, and the client moves to \<open>waiting_for_welcome\<close>.
\<close>

theorem produce_hello_frame:
  assumes "length (plain_username c) < 256" and "length (plain_password c) < 256"
  shows "produce_hello True c msg =
           (0, \<lparr>payload = owned, flags = 0,
                data = [0x05, 0x48, 0x45, 0x4C, 0x4C, 0x4F]
                         @ [of_nat (length (plain_username c))] @ plain_username c
                         @ [of_nat (length (plain_password c))] @ plain_password c\<rparr>, errno c)
         \<and> msg_size (fst (snd (produce_hello True c msg)))
               = 6 + 1 + length (plain_username c) + 1 + length (plain_password c)
         \<and> unat (of_nat (length (plain_username c)) :: byte) = length (plain_username c)
         \<and> unat (of_nat (length (plain_password c)) :: byte) = length (plain_password c)
         \<and> (state c = sending_hello \<longrightarrow>
               next_handshake_command env True c msg =
                 (0, fst (snd (produce_hello True c msg)), c\<lparr>state := waiting_for_welcome\<rparr>))"
  using assms
  by (simp add: produce_hello_ok byte_of_length msg_size_def hello_prefix_def
                next_handshake_command_def)

text \<open>The scenario of the specification: username \<open>u\<close>, password \<open>p\<close>.\<close>

theorem produce_hello_frame_witness:
  "length (plain_username (plain_client_init [0x75] [0x70] ENONE)) < 256
   \<and> length (plain_password (plain_client_init [0x75] [0x70] ENONE)) < 256
   \<and> produce_hello True (plain_client_init [0x75] [0x70] ENONE) closed_msg =
        (0, \<lparr>payload = owned, flags = 0,
             data = [0x05, 0x48, 0x45, 0x4C, 0x4C, 0x4F, 0x01, 0x75, 0x01, 0x70]\<rparr>, ENONE)"
  using produce_hello_frame [of "plain_client_init [0x75] [0x70] ENONE" closed_msg]
  by (simp add: plain_client_init_def)

subsection \<open>A failed production step\<close>

text \<open>
  Claim C10.  When \<open>next_handshake_command\<close> returns a nonzero result, the state is the
  one before the call, the output message is untouched and nothing but \<open>errno\<close> may have
  changed in the client; from \<open>sending_hello\<close> or \<open>sending_initiate\<close> the status is
  still \<open>handshaking\<close>.  When the failure is a username or password of length 256 or
  more, the client is unchanged altogether, so a retry meets the same state.
\<close>

theorem next_handshake_command_failure:
  assumes "next_handshake_command env ok c msg = (rc, m', c')" and "rc \<noteq> 0"
  shows "state c' = state c \<and> m' = msg \<and> c' = c\<lparr>errno := errno c'\<rparr>
         \<and> (state c = sending_hello \<or> state c = sending_initiate
               \<longrightarrow> status c' = mechanism_handshaking)
         \<and> (state c = sending_hello
               \<and> (256 \<le> length (plain_username c) \<or> 256 \<le> length (plain_password c))
               \<longrightarrow> c' = c)"
  using assms
  by (cases "state c")
     (auto simp: next_handshake_command_def produce_hello_def produce_initiate_def status_def
                 Let_def msg_init_size_def split: if_splits sum.splits prod.splits)

lemma hello_too_long:
  "state c = sending_hello \<Longrightarrow>
   256 \<le> length (plain_username c) \<or> 256 \<le> length (plain_password c) \<Longrightarrow>
   next_handshake_command env ok c msg = (-1, msg, c)"
  by (auto simp: next_handshake_command_def produce_hello_def Let_def)

theorem next_handshake_command_failure_witness:
  "next_handshake_command
      \<lparr>parse_metadata = (\<lambda>_. Inr ()), make_command_with_basic_properties = (\<lambda>p m. m)\<rparr>
      True (plain_client_init (replicate 256 0x61) [0x70] ENONE) closed_msg
     = (-1, closed_msg, plain_client_init (replicate 256 0x61) [0x70] ENONE)
   \<and> (-1 :: int) \<noteq> 0
   \<and> state (plain_client_init (replicate 256 0x61) [0x70] ENONE) = sending_hello
   \<and> status (plain_client_init (replicate 256 0x61) [0x70] ENONE) = mechanism_handshaking"
proof -
  let ?env = "\<lparr>parse_metadata = (\<lambda>_. Inr ()),
               make_command_with_basic_properties = (\<lambda>p m. m)\<rparr>"
  let ?c = "plain_client_init (replicate 256 0x61) [0x70] ENONE"
  have run: "next_handshake_command ?env True ?c closed_msg = (-1, closed_msg, ?c)"
    by (rule hello_too_long) (simp_all add: plain_client_init_def)
  have nz: "(-1 :: int) \<noteq> 0" by simp
  from next_handshake_command_failure [OF run nz] run nz show ?thesis
    by (simp add: plain_client_init_def)
qed

subsection \<open>The inbound message\<close>

text \<open>
  Claim C9.  A call of \<open>process_handshake_command\<close> that returns a nonzero result leaves
  the inbound message exactly as it was passed in; a call that returns \<open>0\<close> has closed it
  and initialised it again, to the empty message.
\<close>

theorem process_handshake_command_msg:
  assumes "process_handshake_command env c msg = (rc, m', c')"
  shows "(rc \<noteq> 0 \<longrightarrow> m' = msg) \<and> (rc = 0 \<longrightarrow> m' = empty_msg)"
  using assms
  by (auto simp: process_handshake_command_def Let_def msg_close_def msg_init_def
           split: if_splits prod.splits sum.splits)

lemma welcome_too_long:
  "process_handshake_command env
     \<lparr>state = waiting_for_welcome, plain_username = [], plain_password = [],
      events = [], errno = ENONE\<rparr>
     \<lparr>payload = owned, flags = 2, data = welcome_prefix @ [0]\<rparr>
   = (-1, \<lparr>payload = owned, flags = 2, data = welcome_prefix @ [0]\<rparr>,
      \<lparr>state = waiting_for_welcome, plain_username = [], plain_password = [],
       events = [ZMTP_MALFORMED_COMMAND_WELCOME], errno = EPROTO\<rparr>)"
  by (simp add: process_handshake_command_def welcome_prefix_def msg_size_def
                process_welcome_def protocol_error_def)

lemma welcome_exact:
  "process_handshake_command env
     \<lparr>state = waiting_for_welcome, plain_username = [], plain_password = [],
      events = [], errno = ENONE\<rparr>
     \<lparr>payload = owned, flags = 2, data = welcome_prefix\<rparr>
   = (0, empty_msg,
      \<lparr>state = sending_initiate, plain_username = [], plain_password = [],
       events = [], errno = ENONE\<rparr>)"
  by (simp add: process_handshake_command_def welcome_prefix_def msg_size_def
                process_welcome_def msg_close_def msg_init_def)

theorem process_handshake_command_msg_witness:
  "process_handshake_command
     \<lparr>parse_metadata = (\<lambda>_. Inr ()), make_command_with_basic_properties = (\<lambda>p m. m)\<rparr>
     \<lparr>state = waiting_for_welcome, plain_username = [], plain_password = [],
      events = [], errno = ENONE\<rparr>
     \<lparr>payload = owned, flags = 2, data = welcome_prefix @ [0]\<rparr>
   = (-1, \<lparr>payload = owned, flags = 2, data = welcome_prefix @ [0]\<rparr>,
      \<lparr>state = waiting_for_welcome, plain_username = [], plain_password = [],
       events = [ZMTP_MALFORMED_COMMAND_WELCOME], errno = EPROTO\<rparr>)
   \<and> (-1 :: int) \<noteq> 0
   \<and> process_handshake_command
     \<lparr>parse_metadata = (\<lambda>_. Inr ()), make_command_with_basic_properties = (\<lambda>p m. m)\<rparr>
     \<lparr>state = waiting_for_welcome, plain_username = [], plain_password = [],
      events = [], errno = ENONE\<rparr>
     \<lparr>payload = owned, flags = 2, data = welcome_prefix\<rparr>
   = (0, empty_msg,
      \<lparr>state = sending_initiate, plain_username = [], plain_password = [],
       events = [], errno = ENONE\<rparr>)"
  using process_handshake_command_msg [OF welcome_too_long]
    process_handshake_command_msg [OF welcome_exact] welcome_too_long welcome_exact
  by simp

subsection \<open>WELCOME\<close>

text \<open>
  Claim C4.  An inbound message that starts with the command name \<open>\7WELCOME\<close>, processed
  in state \<open>waiting_for_welcome\<close>: when its length is exactly 8 the call returns \<open>0\<close> and
  the state becomes \<open>sending_initiate\<close>; for any other length the call returns \<open>-1\<close> with
  \<open>errno = EPROTO\<close>, reports \<open>ZMTP_MALFORMED_COMMAND_WELCOME\<close>, and leaves the state and
  the message as they were.
\<close>

theorem welcome_length:
  assumes "take 8 (data msg) = welcome_prefix" and "state c = waiting_for_welcome"
  shows "process_handshake_command env c msg =
           (if length (data msg) = 8 then (0, empty_msg, c\<lparr>state := sending_initiate\<rparr>)
            else (-1, msg, c\<lparr>events := events c @ [ZMTP_MALFORMED_COMMAND_WELCOME],
                             errno := EPROTO\<rparr>))"
proof -
  have "length (take 8 (data msg)) = 8" using assms(1) by (simp add: welcome_prefix_def)
  then have "8 \<le> length (data msg)" by simp
  with assms show ?thesis
    by (simp add: process_handshake_command_def process_welcome_def msg_size_def
                  protocol_error_def msg_close_def msg_init_def)
qed

theorem welcome_length_witness:
  "take 8 (data \<lparr>payload = owned, flags = 2, data = [0x07, 0x57, 0x45, 0x4C, 0x43, 0x4F, 0x4D, 0x45]\<rparr>)
     = welcome_prefix
   \<and> state (plain_client_init [0x75] [0x70] ENONE\<lparr>state := waiting_for_welcome\<rparr>)
       = waiting_for_welcome
   \<and> process_handshake_command
        \<lparr>parse_metadata = (\<lambda>_. Inr ()), make_command_with_basic_properties = (\<lambda>p m. m)\<rparr>
        (plain_client_init [0x75] [0x70] ENONE\<lparr>state := waiting_for_welcome\<rparr>)
        \<lparr>payload = owned, flags = 2, data = [0x07, 0x57, 0x45, 0x4C, 0x43, 0x4F, 0x4D, 0x45]\<rparr>
      = (0, empty_msg, plain_client_init [0x75] [0x70] ENONE\<lparr>state := sending_initiate\<rparr>)"
  using welcome_length
    [of "\<lparr>payload = owned, flags = 2, data = [0x07, 0x57, 0x45, 0x4C, 0x43, 0x4F, 0x4D, 0x45]\<rparr>"
        "plain_client_init [0x75] [0x70] ENONE\<lparr>state := waiting_for_welcome\<rparr>"
        "\<lparr>parse_metadata = (\<lambda>_. Inr ()), make_command_with_basic_properties = (\<lambda>p m. m)\<rparr>"]
  by (simp add: welcome_prefix_def plain_client_init_def)

subsection \<open>ERROR\<close>

lemma error_not_welcome: "take 6 xs = error_prefix \<Longrightarrow> take 8 xs \<noteq> welcome_prefix"
proof
  assume a: "take 6 xs = error_prefix" and b: "take 8 xs = welcome_prefix"
  have "take 1 (take 6 xs) = take 1 (take 8 xs)" by (simp add: min_def)
  with a b show False by (simp add: error_prefix_def welcome_prefix_def)
qed

text \<open>
  Claim C5.  An inbound message that starts with the command name \<open>\5ERROR\<close>, processed
  in state \<open>waiting_for_welcome\<close> or \<open>waiting_for_ready\<close>: when its size is less than 7,
  or the reason length at offset 6 exceeds the size minus 7, the call returns \<open>-1\<close> with
  \<open>errno = EPROTO\<close>, reports \<open>ZMTP_MALFORMED_COMMAND_ERROR\<close> and leaves the state and the
  message as they were; otherwise it returns \<open>0\<close>, hands the reason (that many bytes
  from offset 7) to \<open>handle_error_reason\<close>, and the state becomes
  \<open>error_command_received\<close>.
\<close>

theorem process_error_command:
  assumes "take 6 (data msg) = error_prefix"
    and "state c = waiting_for_welcome \<or> state c = waiting_for_ready"
  shows "process_handshake_command env c msg =
           (if msg_size msg < 7 \<or> unat (data msg ! 6) > msg_size msg - 7
            then (-1, msg, c\<lparr>events := events c @ [ZMTP_MALFORMED_COMMAND_ERROR],
                             errno := EPROTO\<rparr>)
            else (0, empty_msg,
                  c\<lparr>events := events c @
                       [error_reason (take (unat (data msg ! 6)) (drop 7 (data msg)))],
                    state := error_command_received\<rparr>))"
proof -
  have "length (take 6 (data msg)) = 6" using assms(1) by (simp add: error_prefix_def)
  then have len: "6 \<le> msg_size msg" by (simp add: msg_size_def)
  have nw: "take 8 (data msg) \<noteq> welcome_prefix" using assms(1) by (rule error_not_welcome)
  have nr: "take 6 (data msg) \<noteq> ready_prefix"
    using assms(1) by (simp add: error_prefix_def ready_prefix_def)
  from assms(2) len nw nr assms(1) show ?thesis
    by (auto simp: process_handshake_command_def process_error_def Let_def
                  protocol_error_def msg_close_def msg_init_def)
qed

text \<open>The scenario of the specification: \<open>05 45 52 52 4f 52 03 62 61 64\<close>, reason \<open>bad\<close>.\<close>

theorem process_error_command_witness:
  "take 6 (data \<lparr>payload = owned, flags = 2,
                  data = [0x05, 0x45, 0x52, 0x52, 0x4F, 0x52, 0x03, 0x62, 0x61, 0x64]\<rparr>)
     = error_prefix
   \<and> state (plain_client_init [0x75] [0x70] ENONE\<lparr>state := waiting_for_welcome\<rparr>)
       = waiting_for_welcome
   \<and> process_handshake_command
        \<lparr>parse_metadata = (\<lambda>_. Inr ()), make_command_with_basic_properties = (\<lambda>p m. m)\<rparr>
        (plain_client_init [0x75] [0x70] ENONE\<lparr>state := waiting_for_welcome\<rparr>)
        \<lparr>payload = owned, flags = 2,
         data = [0x05, 0x45, 0x52, 0x52, 0x4F, 0x52, 0x03, 0x62, 0x61, 0x64]\<rparr>
      = (0, empty_msg,
         plain_client_init [0x75] [0x70] ENONE
           \<lparr>events := [error_reason [0x62, 0x61, 0x64]], state := error_command_received\<rparr>)"
  using process_error_command
    [of "\<lparr>payload = owned, flags = 2,
          data = [0x05, 0x45, 0x52, 0x52, 0x4F, 0x52, 0x03, 0x62, 0x61, 0x64]\<rparr>"
        "plain_client_init [0x75] [0x70] ENONE\<lparr>state := waiting_for_welcome\<rparr>"
        "\<lparr>parse_metadata = (\<lambda>_. Inr ()), make_command_with_basic_properties = (\<lambda>p m. m)\<rparr>"]
  by (simp add: error_prefix_def plain_client_init_def msg_size_def)

subsection \<open>The handshake sequence\<close>

text \<open>What one call can do to the state: fail and leave it, or take one transition.\<close>

lemma do_call_cases:
  assumes "do_call env c x = (rc, c')"
  shows "(rc \<noteq> 0 \<and> state c' = state c) \<or>
         (rc = 0 \<and>
           ((\<exists>ok. x = next_command ok \<and> state c = sending_hello
                  \<and> state c' = waiting_for_welcome) \<or>
            (\<exists>ok. x = next_command ok \<and> state c = sending_initiate
                  \<and> state c' = waiting_for_ready) \<or>
            (x = process_command welcome_prefix \<and> state c = waiting_for_welcome
                  \<and> state c' = sending_initiate) \<or>
            (\<exists>r. x = process_command r \<and> take 6 r = ready_prefix
                  \<and> parse_metadata env (drop 6 r) = Inr ()
                  \<and> state c = waiting_for_ready \<and> state c' = ready) \<or>
            (\<exists>r. x = process_command r \<and> take 6 r = error_prefix
                  \<and> (state c = waiting_for_welcome \<or> state c = waiting_for_ready)
                  \<and> state c' = error_command_received)))"
proof (cases x)
  case (next_command ok)
  with assms show ?thesis
    by (cases "state c")
       (auto simp: do_call_def next_handshake_command_def produce_hello_def produce_initiate_def
                   Let_def msg_init_size_def split: if_splits sum.splits prod.splits)
next
  case (process_command bs)
  with assms show ?thesis
    by (auto simp: do_call_def process_handshake_command_def process_welcome_def
                   process_ready_def process_error_def protocol_error_def msg_size_def
                   Let_def msg_close_def msg_init_def
             split: if_splits sum.splits prod.splits)
qed

lemma handshake_Cons_fail:
  "do_call env c x = (rc, c') \<Longrightarrow> rc \<noteq> 0 \<Longrightarrow>
   handshake env c (x # xs) = handshake env c' xs"
  by (simp split: prod.splits)

lemma handshake_Cons_ok:
  "do_call env c x = (0, c') \<Longrightarrow>
   handshake env c (x # xs) =
     ((x, state c, state c') # fst (handshake env c' xs), snd (handshake env c' xs))"
  by (simp split: prod.splits)

lemma handshake_ready_iff:
  "state (snd (handshake env c calls)) = ready \<longleftrightarrow> path (state c) (fst (handshake env c calls))"
proof (induction calls arbitrary: c)
  case Nil
  show ?case by (cases "state c") simp_all
next
  case (Cons x xs)
  obtain rc c' where dc: "do_call env c x = (rc, c')" by (cases "do_call env c x")
  show ?case
  proof (cases "rc = 0")
    case False
    with do_call_cases [OF dc] have "state c' = state c" by auto
    moreover have "handshake env c (x # xs) = handshake env c' xs"
      using dc False by (rule handshake_Cons_fail)
    ultimately show ?thesis using Cons.IH [of c'] by simp
  next
    case True
    with dc have dc0: "do_call env c x = (0, c')" by simp
    show ?thesis
      unfolding handshake_Cons_ok [OF dc0]
      using do_call_cases [OF dc] True Cons.IH [of c'] by auto
  qed
qed

lemma path_initial:
  "path sending_hello tr \<longleftrightarrow>
     (\<exists>ok1 w ok2 r. tr =
        [(next_command ok1, sending_hello, waiting_for_welcome),
         (process_command w, waiting_for_welcome, sending_initiate),
         (next_command ok2, sending_initiate, waiting_for_ready),
         (process_command r, waiting_for_ready, ready)])"
  (is "?L \<longleftrightarrow> ?R")
proof
  assume ?L
  then obtain ok1 t1 where 1: "tr = (next_command ok1, sending_hello, waiting_for_welcome) # t1"
    "path waiting_for_welcome t1"
    by (cases "(sending_hello, tr)" rule: path.cases) auto
  then obtain w t2 where 2: "t1 = (process_command w, waiting_for_welcome, sending_initiate) # t2"
    "path sending_initiate t2"
    by (cases "(waiting_for_welcome, t1)" rule: path.cases) auto
  then obtain ok2 t3 where 3: "t2 = (next_command ok2, sending_initiate, waiting_for_ready) # t3"
    "path waiting_for_ready t3"
    by (cases "(sending_initiate, t2)" rule: path.cases) auto
  then obtain r t4 where 4: "t3 = (process_command r, waiting_for_ready, ready) # t4"
    "path ready t4"
    by (cases "(waiting_for_ready, t3)" rule: path.cases) auto
  with 1 2 3 show ?R by auto
next
  assume ?R then show ?L by auto
qed

lemma handshake_allowed:
  "t \<in> set (fst (handshake env c calls)) \<Longrightarrow> allowed env t"
proof (induction calls arbitrary: c)
  case Nil
  then show ?case by simp
next
  case (Cons x xs)
  obtain rc c' where dc: "do_call env c x = (rc, c')" by (cases "do_call env c x")
  show ?case
  proof (cases "rc = 0")
    case False
    with Cons dc show ?thesis by (simp add: handshake_Cons_fail del: handshake.simps)
  next
    case True
    with dc have dc0: "do_call env c x = (0, c')" by simp
    from Cons.prems have "t = (x, state c, state c') \<or> t \<in> set (fst (handshake env c' xs))"
      unfolding handshake_Cons_ok [OF dc0] by simp
    then show ?thesis
    proof
      assume "t = (x, state c, state c')"
      with do_call_cases [OF dc] True show ?thesis by (auto simp: allowed_def)
    next
      assume "t \<in> set (fst (handshake env c' xs))"
      then show ?thesis by (rule Cons.IH)
    qed
  qed
qed

lemma handshake_absorbing:
  "state c = ready \<or> state c = error_command_received \<Longrightarrow>
   state (snd (handshake env c calls)) = state c \<and> fst (handshake env c calls) = []"
proof (induction calls arbitrary: c)
  case Nil
  then show ?case by simp
next
  case (Cons x xs)
  obtain rc c' where dc: "do_call env c x = (rc, c')" by (cases "do_call env c x")
  from do_call_cases [OF dc] Cons.prems have "rc \<noteq> 0" "state c' = state c" by auto
  with Cons.IH [of c'] Cons.prems handshake_Cons_fail [OF dc \<open>rc \<noteq> 0\<close>, of xs]
  show ?case by simp
qed

text \<open>
  Claim C2.  From the initial state \<open>sending_hello\<close>, a sequence of calls ends in state
  \<open>ready\<close> if and only if its successful calls are exactly four: \<open>next_handshake_command\<close>
  from \<open>sending_hello\<close> to \<open>waiting_for_welcome\<close> (HELLO), \<open>process_handshake_command\<close> on
  the 8-byte WELCOME to \<open>sending_initiate\<close>, \<open>next_handshake_command\<close> to
  \<open>waiting_for_ready\<close> (INITIATE), and \<open>process_handshake_command\<close> on a READY whose
  metadata parses, to \<open>ready\<close>.  From \<open>ready\<close> and from \<open>error_command_received\<close> no call
  succeeds and the state never changes.
\<close>

theorem plain_handshake_sequence:
  "(state (snd (handshake env (plain_client_init u p e) calls)) = ready \<longleftrightarrow>
      (\<exists>ok1 ok2 r.
         fst (handshake env (plain_client_init u p e) calls) =
           [(next_command ok1, sending_hello, waiting_for_welcome),
            (process_command welcome_prefix, waiting_for_welcome, sending_initiate),
            (next_command ok2, sending_initiate, waiting_for_ready),
            (process_command r, waiting_for_ready, ready)]
         \<and> take 6 r = ready_prefix \<and> parse_metadata env (drop 6 r) = Inr ()))
   \<and> (state c = ready \<or> state c = error_command_received \<longrightarrow>
        state (snd (handshake env c calls')) = state c \<and> fst (handshake env c calls') = [])"
proof -
  let ?c0 = "plain_client_init u p e"
  let ?tr = "fst (handshake env ?c0 calls)"
  have s0: "state ?c0 = sending_hello" by (simp add: plain_client_init_def)
  have "state (snd (handshake env ?c0 calls)) = ready \<longleftrightarrow> path sending_hello ?tr"
    using handshake_ready_iff [of env ?c0 calls] s0 by simp
  also have "\<dots> \<longleftrightarrow> (\<exists>ok1 ok2 r.
         ?tr =
           [(next_command ok1, sending_hello, waiting_for_welcome),
            (process_command welcome_prefix, waiting_for_welcome, sending_initiate),
            (next_command ok2, sending_initiate, waiting_for_ready),
            (process_command r, waiting_for_ready, ready)]
         \<and> take 6 r = ready_prefix \<and> parse_metadata env (drop 6 r) = Inr ())"
    (is "?P \<longleftrightarrow> ?Q")
  proof
    assume ?P
    then obtain ok1 w ok2 r where tr: "?tr =
        [(next_command ok1, sending_hello, waiting_for_welcome),
         (process_command w, waiting_for_welcome, sending_initiate),
         (next_command ok2, sending_initiate, waiting_for_ready),
         (process_command r, waiting_for_ready, ready)]"
      unfolding path_initial by blast
    have "allowed env (process_command w, waiting_for_welcome, sending_initiate)"
      by (rule handshake_allowed [of _ env ?c0 calls]) (simp add: tr)
    then have w: "w = welcome_prefix" by (simp add: allowed_def)
    have "allowed env (process_command r, waiting_for_ready, ready)"
      by (rule handshake_allowed [of _ env ?c0 calls]) (simp add: tr)
    then have "take 6 r = ready_prefix \<and> parse_metadata env (drop 6 r) = Inr ()"
      by (simp add: allowed_def)
    with tr w show ?Q by blast
  next
    assume ?Q
    then show ?P unfolding path_initial by blast
  qed
  finally show ?thesis using handshake_absorbing [of c env calls'] by blast
qed

text \<open>A run with one refused call (a second \<open>next_handshake_command\<close> while waiting).\<close>

theorem plain_handshake_sequence_witness:
  "state (snd (handshake
       \<lparr>parse_metadata = (\<lambda>_. Inr ()), make_command_with_basic_properties = (\<lambda>p m. m)\<rparr>
       (plain_client_init [0x75] [0x70] ENONE)
       [next_command True, next_command True,
        process_command [0x07, 0x57, 0x45, 0x4C, 0x43, 0x4F, 0x4D, 0x45],
        next_command True,
        process_command [0x05, 0x52, 0x45, 0x41, 0x44, 0x59]])) = ready
   \<and> fst (handshake
       \<lparr>parse_metadata = (\<lambda>_. Inr ()), make_command_with_basic_properties = (\<lambda>p m. m)\<rparr>
       (plain_client_init [0x75] [0x70] ENONE)
       [next_command True, next_command True,
        process_command [0x07, 0x57, 0x45, 0x4C, 0x43, 0x4F, 0x4D, 0x45],
        next_command True,
        process_command [0x05, 0x52, 0x45, 0x41, 0x44, 0x59]])
     = [(next_command True, sending_hello, waiting_for_welcome),
        (process_command welcome_prefix, waiting_for_welcome, sending_initiate),
        (next_command True, sending_initiate, waiting_for_ready),
        (process_command [0x05, 0x52, 0x45, 0x41, 0x44, 0x59], waiting_for_ready, ready)]"
proof -
  let ?env = "\<lparr>parse_metadata = (\<lambda>_. Inr ()),
               make_command_with_basic_properties = (\<lambda>p m. m)\<rparr>"
  let ?calls = "[next_command True, next_command True,
        process_command [0x07, 0x57, 0x45, 0x4C, 0x43, 0x4F, 0x4D, 0x45],
        next_command True,
        process_command [0x05, 0x52, 0x45, 0x41, 0x44, 0x59]]"
  have tr: "fst (handshake ?env (plain_client_init [0x75] [0x70] ENONE) ?calls)
     = [(next_command True, sending_hello, waiting_for_welcome),
        (process_command welcome_prefix, waiting_for_welcome, sending_initiate),
        (next_command True, sending_initiate, waiting_for_ready),
        (process_command [0x05, 0x52, 0x45, 0x41, 0x44, 0x59], waiting_for_ready, ready)]"
    by (simp add: do_call_def next_handshake_command_def produce_hello_def produce_initiate_def
          process_handshake_command_def process_welcome_def process_ready_def
          plain_client_init_def msg_init_size_def msg_close_def msg_init_def msg_size_def
          welcome_prefix_def ready_prefix_def error_prefix_def Let_def)
  have "\<exists>ok1 ok2 r.
         fst (handshake ?env (plain_client_init [0x75] [0x70] ENONE) ?calls) =
           [(next_command ok1, sending_hello, waiting_for_welcome),
            (process_command welcome_prefix, waiting_for_welcome, sending_initiate),
            (next_command ok2, sending_initiate, waiting_for_ready),
            (process_command r, waiting_for_ready, ready)]
         \<and> take 6 r = ready_prefix \<and> parse_metadata ?env (drop 6 r) = Inr ()"
    unfolding tr
    by (intro exI [of _ True] exI [of _ "[0x05, 0x52, 0x45, 0x41, 0x44, 0x59]"])
       (simp add: ready_prefix_def)
  then have "state (snd (handshake ?env (plain_client_init [0x75] [0x70] ENONE) ?calls)) = ready"
    by (rule plain_handshake_sequence
               [of ?env "[0x75]" "[0x70]" ENONE ?calls, THEN conjunct1, THEN iffD2])
  with tr show ?thesis by simp
qed

section \<open>Properties of the framing decoder\<close>

subsection \<open>The size checks of \<open>size_ready\<close>\<close>

text \<open>\<open>msg_size != static_cast<size_t> (msg_size)\<close> is the test that the size does not fit.\<close>

lemma fits_size_t: "(sz :: 64 word) = take_bit n sz \<longleftrightarrow> unat sz < 2 ^ n"
  by (metis take_bit_nat_eq_self_iff unsigned_take_bit_eq word_eq_iff_unsigned)

lemma succ_above:
  assumes "0 \<le> sint (m :: 64 word)"
  shows "m < m + 1"
proof -
  have "m \<noteq> - 1" using assms by auto
  then have "\<not> m + 1 \<le> m" by (simp add: inc_less_eq_self_iff_eq)
  then show ?thesis by simp
qed

lemma size_ready_too_large:
  "0 \<le> sint (maxmsgsize d) \<Longrightarrow> maxmsgsize d < sz \<Longrightarrow>
   size_ready env d sz a w = (Ret (-1), d\<lparr>d_errno := EMSGSIZE\<rparr>)"
  by (simp add: size_ready_def)

lemma size_ready_no_fit:
  "2 ^ size_t_bits env \<le> unat sz \<Longrightarrow>
   size_ready env d sz a w = (Ret (-1), d\<lparr>d_errno := EMSGSIZE\<rparr>)"
  using fits_size_t [of sz "size_t_bits env"] by (simp add: size_ready_def)

lemma size_ready_accept:
  assumes "\<not> (0 \<le> sint (maxmsgsize d) \<and> maxmsgsize d < sz)"
    and "unat sz < 2 ^ size_t_bits env"
    and "alloc_ok env (unat sz)"
    and "size_ready env d sz a w = (rc, d')"
  shows "rc = Ret 0 \<and> next_fn d' = message_ready_step \<and> to_read d' = unat sz
         \<and> read_pos d' = in_msg 0 \<and> tmpbuf d' = tmpbuf d \<and> msg_flags d' = msg_flags d
         \<and> zero_copy d' = zero_copy d \<and> maxmsgsize d' = maxmsgsize d \<and> d_errno d' = d_errno d
         \<and> length (data (in_progress d')) = unat sz \<and> flags (in_progress d') = msg_flags d"
  using assms fits_size_t [of sz "size_t_bits env"]
  by (auto simp: size_ready_def msg_close_def msg_init_size_def msg_init_arena_def
                   msg_set_flags_def msg_size_def next_step_def msg_is_zcmsg_def
           split: if_splits)

text \<open>
  Claim C3.  With a nonnegative \<open>maxmsgsize\<close>, a size strictly above it makes
  \<open>size_ready\<close> return \<open>-1\<close> with \<open>errno = EMSGSIZE\<close>, and so does a size that does not
  fit \<open>size_t\<close>; the decoder is otherwise unchanged.  At the boundary: the size
  \<open>maxmsgsize + 1\<close> is refused with \<open>EMSGSIZE\<close>, and the size \<open>maxmsgsize\<close> is accepted
  (return value \<open>0\<close>, a message of that size in progress, that many bytes requested)
  when it fits \<open>size_t\<close> and the allocation succeeds.  This holds at every read
  address and for every window.
\<close>

theorem size_limit:
  "(0 \<le> sint (maxmsgsize d) \<and> maxmsgsize d < sz \<longrightarrow>
      size_ready env d sz a w = (Ret (-1), d\<lparr>d_errno := EMSGSIZE\<rparr>))
   \<and> (2 ^ size_t_bits env \<le> unat sz \<longrightarrow>
      size_ready env d sz a w = (Ret (-1), d\<lparr>d_errno := EMSGSIZE\<rparr>))
   \<and> (0 \<le> sint (maxmsgsize d) \<longrightarrow>
      size_ready env d (maxmsgsize d + 1) a w = (Ret (-1), d\<lparr>d_errno := EMSGSIZE\<rparr>))
   \<and> (0 \<le> sint (maxmsgsize d) \<and> unat (maxmsgsize d) < 2 ^ size_t_bits env
        \<and> alloc_ok env (unat (maxmsgsize d)) \<longrightarrow>
      fst (size_ready env d (maxmsgsize d) a w) = Ret 0
      \<and> msg_size (in_progress (snd (size_ready env d (maxmsgsize d) a w))) = unat (maxmsgsize d)
      \<and> to_read (snd (size_ready env d (maxmsgsize d) a w)) = unat (maxmsgsize d)
      \<and> d_errno (snd (size_ready env d (maxmsgsize d) a w)) = d_errno d)"
proof (intro conjI impI)
  assume "0 \<le> sint (maxmsgsize d) \<and> maxmsgsize d < sz"
  then show "size_ready env d sz a w = (Ret (-1), d\<lparr>d_errno := EMSGSIZE\<rparr>)"
    by (simp add: size_ready_too_large)
next
  assume "2 ^ size_t_bits env \<le> unat sz"
  then show "size_ready env d sz a w = (Ret (-1), d\<lparr>d_errno := EMSGSIZE\<rparr>)"
    by (rule size_ready_no_fit)
next
  assume "0 \<le> sint (maxmsgsize d)"
  then show "size_ready env d (maxmsgsize d + 1) a w = (Ret (-1), d\<lparr>d_errno := EMSGSIZE\<rparr>)"
    by (simp add: size_ready_too_large succ_above)
next
  assume a: "0 \<le> sint (maxmsgsize d) \<and> unat (maxmsgsize d) < 2 ^ size_t_bits env
        \<and> alloc_ok env (unat (maxmsgsize d))"
  obtain rc d' where sr: "size_ready env d (maxmsgsize d) a w = (rc, d')"
    by (cases "size_ready env d (maxmsgsize d) a w")
  from a size_ready_accept [OF _ _ _ sr]
  have "rc = Ret 0 \<and> to_read d' = unat (maxmsgsize d) \<and> d_errno d' = d_errno d
        \<and> length (data (in_progress d')) = unat (maxmsgsize d)"
    by simp
  with sr
  show "fst (size_ready env d (maxmsgsize d) a w) = Ret 0"
    "msg_size (in_progress (snd (size_ready env d (maxmsgsize d) a w))) = unat (maxmsgsize d)"
    "to_read (snd (size_ready env d (maxmsgsize d) a w)) = unat (maxmsgsize d)"
    "d_errno (snd (size_ready env d (maxmsgsize d) a w)) = d_errno d"
    by (simp_all add: msg_size_def)
qed

theorem size_limit_witness:
  "0 \<le> sint (maxmsgsize (v2_decoder_init 5 False ENONE))
   \<and> unat (maxmsgsize (v2_decoder_init 5 False ENONE)) < 2 ^ 64
   \<and> fst (size_ready \<lparr>size_t_bits = 64, alloc_ok = (\<lambda>_. True), arena_copied = (\<lambda>_. False)\<rparr>
             (v2_decoder_init 5 False ENONE) 5 4096 []) = Ret 0
   \<and> size_ready \<lparr>size_t_bits = 64, alloc_ok = (\<lambda>_. True), arena_copied = (\<lambda>_. False)\<rparr>
             (v2_decoder_init 5 False ENONE) 6 4096 []
       = (Ret (-1), (v2_decoder_init 5 False ENONE)\<lparr>d_errno := EMSGSIZE\<rparr>)
   \<and> (2 :: nat) ^ 32 \<le> unat (4294967296 :: 64 word)
   \<and> size_ready \<lparr>size_t_bits = 32, alloc_ok = (\<lambda>_. True), arena_copied = (\<lambda>_. False)\<rparr>
             (v2_decoder_init (-1) False ENONE) 4294967296 4096 []
       = (Ret (-1), (v2_decoder_init (-1) False ENONE)\<lparr>d_errno := EMSGSIZE\<rparr>)"
  using size_limit [of "v2_decoder_init 5 False ENONE" 6
      "\<lparr>size_t_bits = 64, alloc_ok = (\<lambda>_. True), arena_copied = (\<lambda>_. False)\<rparr>" 4096 "[]"]
    size_limit [of "v2_decoder_init (-1) False ENONE" 4294967296
      "\<lparr>size_t_bits = 32, alloc_ok = (\<lambda>_. True), arena_copied = (\<lambda>_. False)\<rparr>" 4096 "[]"]
  by (simp add: v2_decoder_init_def msg_init_def next_step_def)

subsection \<open>The message in progress after a failure\<close>

text \<open>
  Claim C8.  Whenever \<open>size_ready\<close> does not return \<open>0\<close> it returns \<open>-1\<close>, and
  \<open>in_progress\<close> is either untouched (the two \<open>EMSGSIZE\<close> exits, taken before the
  message is closed) or the empty message (the \<open>ENOMEM\<close> exit).  \<open>init_size\<close> is called
  when the size checks pass and zero-copy is off or the pointer test
  \<open>read_pos + msg_size > data () + size ()\<close> holds; whenever it is called and fails,
  the decoder returns \<open>-1\<close> with \<open>errno = ENOMEM\<close> and \<open>in_progress\<close> reset to the empty
  message.  When zero-copy is on and the pointer test does not hold, which includes
  every size for which the pointer sum wraps below the end of the arena, \<open>init_size\<close>
  is not called and the call returns \<open>0\<close> whatever the allocator would answer, with a
  message of the decoded size over the read position, and with one more reference on
  the arena unless the message object copied the payload.
\<close>

theorem size_ready_failure:
  "(size_ready env d sz a w = (rc, d') \<and> rc \<noteq> Ret 0 \<longrightarrow>
      rc = Ret (-1)
      \<and> (d_errno d' = EMSGSIZE \<and> in_progress d' = in_progress d
          \<or> d_errno d' = ENOMEM \<and> in_progress d' = empty_msg))
   \<and> (\<not> (0 \<le> sint (maxmsgsize d) \<and> maxmsgsize d < sz) \<and> unat sz < 2 ^ size_t_bits env
        \<and> (\<not> zero_copy d \<or> ptr_add env a (length w) < ptr_add env a (unat sz))
        \<and> \<not> alloc_ok env (unat sz) \<longrightarrow>
      size_ready env d sz a w = (Ret (-1), d\<lparr>in_progress := empty_msg, d_errno := ENOMEM\<rparr>))
   \<and> (\<not> (0 \<le> sint (maxmsgsize d) \<and> maxmsgsize d < sz) \<and> unat sz < 2 ^ size_t_bits env
        \<and> zero_copy d \<and> ptr_add env a (unat sz) \<le> ptr_add env a (length w) \<longrightarrow>
      fst (size_ready env d sz a w) = Ret 0
      \<and> payload (in_progress (snd (size_ready env d sz a w)))
          = (if arena_copied env (unat sz) then owned else shared)
      \<and> msg_size (in_progress (snd (size_ready env d sz a w))) = unat sz
      \<and> refs (snd (size_ready env d sz a w))
          = (if arena_copied env (unat sz) then refs d else refs d + 1))"
  using fits_size_t [of sz "size_t_bits env"]
  by (auto simp: size_ready_def msg_close_def msg_init_size_def msg_init_arena_def
                 msg_init_def msg_set_flags_def msg_size_def msg_is_zcmsg_def next_step_def
           split: if_splits)

theorem size_ready_failure_witness:
  "\<not> (0 \<le> sint (maxmsgsize (v2_decoder_init 5 False ENONE))
        \<and> maxmsgsize (v2_decoder_init 5 False ENONE) < 3)
   \<and> unat (3 :: 64 word) < 2 ^ 64
   \<and> \<not> zero_copy (v2_decoder_init 5 False ENONE)
   \<and> size_ready \<lparr>size_t_bits = 64, alloc_ok = (\<lambda>_. False), arena_copied = (\<lambda>_. False)\<rparr>
             (v2_decoder_init 5 False ENONE) 3 4096 []
       = (Ret (-1), (v2_decoder_init 5 False ENONE)\<lparr>in_progress := empty_msg, d_errno := ENOMEM\<rparr>)
   \<and> zero_copy (v2_decoder_init 5 True ENONE)
   \<and> ptr_add \<lparr>size_t_bits = 64, alloc_ok = (\<lambda>_. False), arena_copied = (\<lambda>_. False)\<rparr>
         4096 (length ([0x2a, 0x2b] :: byte list))
       < ptr_add \<lparr>size_t_bits = 64, alloc_ok = (\<lambda>_. False), arena_copied = (\<lambda>_. False)\<rparr>
           4096 (unat (3 :: 64 word))
   \<and> size_ready \<lparr>size_t_bits = 64, alloc_ok = (\<lambda>_. False), arena_copied = (\<lambda>_. False)\<rparr>
             (v2_decoder_init 5 True ENONE) 3 4096 [0x2a, 0x2b]
       = (Ret (-1), (v2_decoder_init 5 True ENONE)\<lparr>in_progress := empty_msg, d_errno := ENOMEM\<rparr>)
   \<and> in_progress (snd (size_ready
           \<lparr>size_t_bits = 64, alloc_ok = (\<lambda>_. False), arena_copied = (\<lambda>_. False)\<rparr>
           ((v2_decoder_init 5 False ENONE)
              \<lparr>in_progress := \<lparr>payload = owned, flags = 0, data = [0x2a]\<rparr>\<rparr>) 6 4096 []))
       = \<lparr>payload = owned, flags = 0, data = [0x2a]\<rparr>
   \<and> ptr_add \<lparr>size_t_bits = 64, alloc_ok = (\<lambda>_. False), arena_copied = (\<lambda>_. False)\<rparr>
         4096 (unat (0xFFFFFFFFFFFFFFF0 :: 64 word))
       \<le> ptr_add \<lparr>size_t_bits = 64, alloc_ok = (\<lambda>_. False), arena_copied = (\<lambda>_. False)\<rparr>
           4096 (length ([] :: byte list))
   \<and> fst (size_ready \<lparr>size_t_bits = 64, alloc_ok = (\<lambda>_. False), arena_copied = (\<lambda>_. False)\<rparr>
             (v2_decoder_init (-1) True ENONE) 0xFFFFFFFFFFFFFFF0 4096 []) = Ret 0
   \<and> payload (in_progress (snd (size_ready
           \<lparr>size_t_bits = 64, alloc_ok = (\<lambda>_. False), arena_copied = (\<lambda>_. False)\<rparr>
           (v2_decoder_init (-1) True ENONE) 0xFFFFFFFFFFFFFFF0 4096 []))) = shared
   \<and> refs (snd (size_ready
           \<lparr>size_t_bits = 64, alloc_ok = (\<lambda>_. False), arena_copied = (\<lambda>_. False)\<rparr>
           (v2_decoder_init (-1) True ENONE) 0xFFFFFFFFFFFFFFF0 4096 [])) = 1"
proof -
  let ?env = "\<lparr>size_t_bits = 64, alloc_ok = (\<lambda>_. False), arena_copied = (\<lambda>_. False)\<rparr>"
  have 1: "size_ready ?env (v2_decoder_init 5 False ENONE) 3 4096 []
       = (Ret (-1), (v2_decoder_init 5 False ENONE)\<lparr>in_progress := empty_msg, d_errno := ENOMEM\<rparr>)"
    using size_ready_failure [of ?env "v2_decoder_init 5 False ENONE" 3 4096 "[]"]
    by (simp add: v2_decoder_init_def msg_init_def next_step_def)
  have p2: "ptr_add ?env 4096 (length ([0x2a, 0x2b] :: byte list))
              < ptr_add ?env 4096 (unat (3 :: 64 word))"
    by (simp add: ptr_add_def)
  have 2: "size_ready ?env (v2_decoder_init 5 True ENONE) 3 4096 [0x2a, 0x2b]
       = (Ret (-1), (v2_decoder_init 5 True ENONE)\<lparr>in_progress := empty_msg, d_errno := ENOMEM\<rparr>)"
    using size_ready_failure [of ?env "v2_decoder_init 5 True ENONE" 3 4096 "[0x2a, 0x2b]"] p2
    by (simp add: v2_decoder_init_def msg_init_def next_step_def)
  have 3: "in_progress (snd (size_ready ?env
           ((v2_decoder_init 5 False ENONE)
              \<lparr>in_progress := \<lparr>payload = owned, flags = 0, data = [0x2a]\<rparr>\<rparr>) 6 4096 []))
       = \<lparr>payload = owned, flags = 0, data = [0x2a]\<rparr>"
    by (simp add: v2_decoder_init_def msg_init_def next_step_def size_ready_def)
  have p4: "ptr_add ?env 4096 (unat (0xFFFFFFFFFFFFFFF0 :: 64 word))
              \<le> ptr_add ?env 4096 (length ([] :: byte list))"
    by (simp add: ptr_add_def)
  have 4: "fst (size_ready ?env (v2_decoder_init (-1) True ENONE) 0xFFFFFFFFFFFFFFF0 4096 []) = Ret 0"
    "payload (in_progress (snd (size_ready ?env (v2_decoder_init (-1) True ENONE)
        0xFFFFFFFFFFFFFFF0 4096 []))) = shared"
    "refs (snd (size_ready ?env (v2_decoder_init (-1) True ENONE) 0xFFFFFFFFFFFFFFF0 4096 [])) = 1"
    using size_ready_failure [of ?env "v2_decoder_init (-1) True ENONE" "0xFFFFFFFFFFFFFFF0" 4096 "[]"]
      p4
    by (simp_all add: v2_decoder_init_def msg_init_def next_step_def)
  from 1 p2 2 3 p4 4 show ?thesis
    by (simp add: v2_decoder_init_def msg_init_def next_step_def)
qed

subsection \<open>The reference framing\<close>

lemma ref_run_append:
  "ref_run mx bits st (xs @ ys) =
     (case ref_run mx bits st xs of
        (out, st') \<Rightarrow>
          (case ref_run mx bits st' ys of (out', st'') \<Rightarrow> (out @ out', st'')))"
  by (induction xs arbitrary: st) (auto split: prod.splits)

lemma ref_run_Failed: "ref_run mx bits Failed bs = ([], Failed)"
  by (induction bs) auto

lemma ref_run_size8_part:
  "length acc + length bs < 8 \<Longrightarrow>
   ref_run mx bits (AwaitSize8 f acc) bs = ([], AwaitSize8 f (acc @ bs))"
  by (induction bs arbitrary: acc) auto

lemma ref_run_size8_full:
  "length acc + length bs = 8 \<Longrightarrow> bs \<noteq> [] \<Longrightarrow>
   ref_run mx bits (AwaitSize8 f acc) bs = ref_size mx bits f (be_nat (acc @ bs))"
proof (induction bs arbitrary: acc)
  case Nil
  then show ?case by simp
next
  case (Cons b bs)
  show ?case
  proof (cases "bs = []")
    case True
    with Cons.prems show ?thesis by simp
  next
    case False
    with Cons.prems have "length acc + 1 < 8" by (cases bs) auto
    with False Cons.prems Cons.IH [of "acc @ [b]"] show ?thesis by simp
  qed
qed

lemma ref_run_payload_part:
  "length acc + length bs < n \<Longrightarrow>
   ref_run mx bits (AwaitPayload f n acc) bs = ([], AwaitPayload f n (acc @ bs))"
  by (induction bs arbitrary: acc) auto

lemma ref_run_payload_full:
  "length acc + length bs = n \<Longrightarrow> bs \<noteq> [] \<Longrightarrow>
   ref_run mx bits (AwaitPayload f n acc) bs = ([(f, n, acc @ bs)], AwaitFlags)"
proof (induction bs arbitrary: acc)
  case Nil
  then show ?case by simp
next
  case (Cons b bs)
  show ?case
  proof (cases "bs = []")
    case True
    with Cons.prems show ?thesis by simp
  next
    case False
    with Cons.prems have "length acc + 1 < n" by (cases bs) auto
    with False Cons.prems Cons.IH [of "acc @ [b]"] show ?thesis by simp
  qed
qed

lemma nat_or_add:
  assumes "a < 2 ^ n"
  shows "push_bit n x OR a = 2 ^ n * x + (a::nat)"
proof -
  have a: "take_bit n a = a" using assms by (rule take_bit_nat_eq_self)
  have "push_bit n x AND a = 0"
  proof (rule bit_eqI)
    fix m
    have "bit a m \<Longrightarrow> m < n"
      using a by (metis bit_take_bit_iff)
    then show "bit (push_bit n x AND a) m = bit (0::nat) m"
      by (auto simp: bit_and_iff bit_push_bit_iff)
  qed
  then have "push_bit n x + a = push_bit n x OR a" by (rule disjunctive_add_eq_or)
  then show ?thesis by (simp add: push_bit_eq_mult mult.commute)
qed

lemma unat_push_byte:
  assumes "n + 8 \<le> 64"
  shows "unat (push_bit n (ucast (b :: 8 word)) :: 64 word) = 2 ^ n * unat b"
proof -
  have "unat b < 2 ^ 8" using unsigned_less [of b] by simp
  then have "2 ^ n * unat b < 2 ^ n * 2 ^ 8" by simp
  also have "\<dots> = 2 ^ (n + 8)" by (simp add: power_add)
  also have "\<dots> \<le> (2::nat) ^ 64" using assms by (rule power_increasing) simp
  finally have lt: "2 ^ n * unat b < (2::nat) ^ 64" .
  have "unat (push_bit n (ucast b) :: 64 word) = take_bit 64 (push_bit n (unat (ucast b :: 64 word)))"
    by (simp add: unsigned_push_bit_eq)
  also have "unat (ucast b :: 64 word) = unat b"
  proof -
    have "unat b < 2 ^ 64" using \<open>unat b < 2 ^ 8\<close> by simp
    then show ?thesis by (simp add: unsigned_ucast_eq take_bit_nat_eq_self)
  qed
  also have "take_bit 64 (push_bit n (unat b)) = push_bit n (unat b)"
    using lt by (simp add: push_bit_eq_mult mult.commute take_bit_nat_eq_self)
  finally show ?thesis by (simp add: push_bit_eq_mult mult.commute)
qed

lemma or_step:
  assumes "t < 2 ^ n" and "x < 2 ^ 8"
  shows "push_bit n x OR t = 2 ^ n * x + (t::nat)" and "2 ^ n * x + t < 2 ^ (n + 8)"
proof -
  show "push_bit n x OR t = 2 ^ n * x + t" using assms(1) by (rule nat_or_add)
  have "2 ^ n * x + t < 2 ^ n * x + 2 ^ n" using assms(1) by simp
  also have "\<dots> = 2 ^ n * (x + 1)" by simp
  also have "\<dots> \<le> 2 ^ n * 2 ^ 8" using assms(2) by (intro mult_le_mono2) simp
  finally show "2 ^ n * x + t < 2 ^ (n + 8)" by (simp add: power_add)
qed

lemma or_chain:
  fixes x0 x1 x2 x3 x4 x5 x6 x7 :: nat
  assumes "x0 < 2 ^ 8" "x1 < 2 ^ 8" "x2 < 2 ^ 8" "x3 < 2 ^ 8"
    "x4 < 2 ^ 8" "x5 < 2 ^ 8" "x6 < 2 ^ 8" "x7 < 2 ^ 8"
  shows "2 ^ 56 * x0 OR 2 ^ 48 * x1 OR 2 ^ 40 * x2 OR 2 ^ 32 * x3 OR
         2 ^ 24 * x4 OR 2 ^ 16 * x5 OR 2 ^ 8 * x6 OR x7
         = 2 ^ 56 * x0 + (2 ^ 48 * x1 + (2 ^ 40 * x2 + (2 ^ 32 * x3 +
             (2 ^ 24 * x4 + (2 ^ 16 * x5 + (2 ^ 8 * x6 + x7))))))"
proof -
  let ?t6 = "2 ^ 8 * x6 + x7"
  let ?t5 = "2 ^ 16 * x5 + ?t6"
  let ?t4 = "2 ^ 24 * x4 + ?t5"
  let ?t3 = "2 ^ 32 * x3 + ?t4"
  let ?t2 = "2 ^ 40 * x2 + ?t3"
  let ?t1 = "2 ^ 48 * x1 + ?t2"
  have s6: "2 ^ 8 * x6 OR x7 = ?t6" "?t6 < 2 ^ 16"
    using or_step [of x7 8 x6] assms by (simp_all add: push_bit_eq_mult mult.commute)
  have s5: "2 ^ 16 * x5 OR ?t6 = ?t5" "?t5 < 2 ^ 24"
    using or_step [of ?t6 16 x5] s6(2) assms by (simp_all add: push_bit_eq_mult mult.commute)
  have s4: "2 ^ 24 * x4 OR ?t5 = ?t4" "?t4 < 2 ^ 32"
    using or_step [of ?t5 24 x4] s5(2) assms by (simp_all add: push_bit_eq_mult mult.commute)
  have s3: "2 ^ 32 * x3 OR ?t4 = ?t3" "?t3 < 2 ^ 40"
    using or_step [of ?t4 32 x3] s4(2) assms by (simp_all add: push_bit_eq_mult mult.commute)
  have s2: "2 ^ 40 * x2 OR ?t3 = ?t2" "?t2 < 2 ^ 48"
    using or_step [of ?t3 40 x2] s3(2) assms by (simp_all add: push_bit_eq_mult mult.commute)
  have s1: "2 ^ 48 * x1 OR ?t2 = ?t1" "?t1 < 2 ^ 56"
    using or_step [of ?t2 48 x1] s2(2) assms by (simp_all add: push_bit_eq_mult mult.commute)
  have s0: "2 ^ 56 * x0 OR ?t1 = 2 ^ 56 * x0 + ?t1"
    using or_step(1) [of ?t1 56 x0] s1(2) assms by (simp add: push_bit_eq_mult mult.commute)
  show ?thesis
    by (simp only: s6(1) s5(1) s4(1) s3(1) s2(1) s1(1) s0)
qed

lemma get_uint64_be:
  "unat (get_uint64 [b0, b1, b2, b3, b4, b5, b6, b7]) = be_nat [b0, b1, b2, b3, b4, b5, b6, b7]"
proof -
  have b: "unat b0 < 2 ^ 8" "unat b1 < 2 ^ 8" "unat b2 < 2 ^ 8" "unat b3 < 2 ^ 8"
    "unat b4 < 2 ^ 8" "unat b5 < 2 ^ 8" "unat b6 < 2 ^ 8" "unat b7 < 2 ^ 8"
    using unsigned_less [where 'b = 8] by simp_all
  have u7: "unat (ucast b7 :: 64 word) = unat b7"
    using unat_push_byte [of 0 b7] by simp
  have "unat (get_uint64 [b0, b1, b2, b3, b4, b5, b6, b7]) =
          2 ^ 56 * unat b0 OR 2 ^ 48 * unat b1 OR 2 ^ 40 * unat b2 OR
          2 ^ 32 * unat b3 OR 2 ^ 24 * unat b4 OR 2 ^ 16 * unat b5 OR
          2 ^ 8 * unat b6 OR unat b7"
    unfolding get_uint64_def
    by (simp only: nth_Cons_0 nth_Cons_numeral nth_Cons_Suc unsigned_or_eq u7
          unat_push_byte [of 56] unat_push_byte [of 48] unat_push_byte [of 40]
          unat_push_byte [of 32] unat_push_byte [of 24] unat_push_byte [of 16]
          unat_push_byte [of 8]) (simp add: u7)
  also have "\<dots> = 2 ^ 56 * unat b0 + (2 ^ 48 * unat b1 + (2 ^ 40 * unat b2 + (2 ^ 32 * unat b3 +
             (2 ^ 24 * unat b4 + (2 ^ 16 * unat b5 + (2 ^ 8 * unat b6 + unat b7))))))"
    using b by (rule or_chain)
  also have "\<dots> = be_nat [b0, b1, b2, b3, b4, b5, b6, b7]"
    by (simp add: be_nat_def)
  finally show ?thesis .
qed

lemma list8:
  assumes "length (t :: 'a list) = 8"
  shows "t = [t ! 0, t ! 1, t ! 2, t ! 3, t ! 4, t ! 5, t ! 6, t ! 7]"
  using assms by (auto simp: numeral_eq_Suc length_Suc_conv)

lemma get_uint64_be_nat: "length t = 8 \<Longrightarrow> unat (get_uint64 t) = be_nat t"
  using get_uint64_be [of "t ! 0" "t ! 1" "t ! 2" "t ! 3" "t ! 4" "t ! 5" "t ! 6" "t ! 7"]
    list8 [of t]
  by (simp add: get_uint64_def)

lemma ref_sizes_append:
  "ref_sizes mx bits st (xs @ ys) =
     ref_sizes mx bits st xs @ ref_sizes mx bits (snd (ref_run mx bits st xs)) ys"
  by (induction xs arbitrary: st) (auto split: prod.splits)

lemma ref_sizes_Failed: "ref_sizes mx bits Failed bs = []"
  by (induction bs) (auto simp: size_event_def)

lemma ref_sizes_size8_part:
  "length acc + length bs < 8 \<Longrightarrow> ref_sizes mx bits (AwaitSize8 f acc) bs = []"
  by (induction bs arbitrary: acc) (auto simp: size_event_def)

lemma ref_sizes_size8_full:
  "length acc + length bs = 8 \<Longrightarrow> bs \<noteq> [] \<Longrightarrow>
   ref_sizes mx bits (AwaitSize8 f acc) bs =
     (if too_large mx bits (be_nat (acc @ bs)) then [] else [be_nat (acc @ bs)])"
proof (induction bs arbitrary: acc)
  case Nil
  then show ?case by simp
next
  case (Cons b bs)
  show ?case
  proof (cases "bs = []")
    case True
    with Cons.prems show ?thesis by (simp add: size_event_def)
  next
    case False
    with Cons.prems have "length acc + 1 < 8" by (cases bs) auto
    with False Cons.prems Cons.IH [of "acc @ [b]"] show ?thesis
      by (simp add: size_event_def)
  qed
qed

lemma ref_sizes_payload:
  "length acc + length bs \<le> n \<Longrightarrow> ref_sizes mx bits (AwaitPayload f n acc) bs = []"
proof (induction bs arbitrary: acc)
  case Nil
  then show ?case by simp
next
  case (Cons b bs)
  show ?case
  proof (cases "length acc + 1 < n")
    case True
    with Cons.prems Cons.IH [of "acc @ [b]"] show ?thesis by (simp add: size_event_def)
  next
    case False
    with Cons.prems have "\<not> 0 < length bs" by (simp del: length_greater_0_conv)
    then have "bs = []" by simp
    then show ?thesis by (simp add: size_event_def)
  qed
qed

lemma be_nat_snoc: "be_nat (xs @ [b]) = 256 * be_nat xs + unat b"
  by (simp add: be_nat_def)

lemma be_bytes_length: "length (be_bytes k n) = k"
  by (induction k arbitrary: n) auto

lemma unat_byte_of_nat: "n < 256 \<Longrightarrow> unat (of_nat n :: byte) = n"
  by (simp add: unsigned_of_nat take_bit_nat_eq_self)

lemma be_nat_be_bytes: "n < 256 ^ k \<Longrightarrow> be_nat (be_bytes k n) = n"
proof (induction k arbitrary: n)
  case 0
  then show ?case by (simp add: be_nat_def)
next
  case (Suc k)
  from Suc.prems have "n div 256 < 256 ^ k"
    by (simp add: less_mult_imp_div_less mult.commute)
  then have "be_nat (be_bytes k (n div 256)) = n div 256" by (rule Suc.IH)
  then show ?case by (simp add: be_nat_snoc unat_byte_of_nat)
qed

lemma frame_run:
  assumes "well_formed fr"
  shows "ref_run mx bits AwaitFlags (encode_frame fr) =
           (if too_large mx bits (length (snd fr)) then ([], Failed)
            else ([frame_view fr], AwaitFlags))"
    and "set (ref_sizes mx bits AwaitFlags (encode_frame fr)) \<subseteq> {length (snd fr)}"
proof -
  obtain fb p where fr: "fr = (fb, p)" by (cases fr)
  let ?f = "wire_flags fb"
  let ?n = "length p"
  let ?hdr = "if fb AND large_flag \<noteq> 0 then be_bytes 8 ?n else [of_nat ?n]"
  let ?st1 = "snd (ref_step mx bits AwaitFlags fb)"
  have enc: "encode_frame fr = [fb] @ ?hdr @ p" by (simp add: encode_frame_def fr)
  have hdr: "ref_run mx bits ?st1 ?hdr = ref_size mx bits ?f ?n"
    and hsz: "ref_sizes mx bits ?st1 ?hdr = (if too_large mx bits ?n then [] else [?n])"
  proof -
    show "ref_run mx bits ?st1 ?hdr = ref_size mx bits ?f ?n"
    proof (cases "fb AND large_flag \<noteq> 0")
      case True
      with assms fr have "?n < 256 ^ 8" by (simp add: well_formed_def)
      then have v: "be_nat (be_bytes 8 ?n) = ?n" by (rule be_nat_be_bytes)
      have "be_bytes 8 ?n \<noteq> []" using be_bytes_length [of 8 ?n] by auto
      with ref_run_size8_full [of "[]" "be_bytes 8 ?n" mx bits ?f] True v show ?thesis
        by (simp add: be_bytes_length)
    next
      case False
      with assms fr have "?n < 256" by (simp add: well_formed_def)
      with False show ?thesis by (simp add: unat_byte_of_nat split: prod.splits)
    qed
    show "ref_sizes mx bits ?st1 ?hdr = (if too_large mx bits ?n then [] else [?n])"
    proof (cases "fb AND large_flag \<noteq> 0")
      case True
      with assms fr have "?n < 256 ^ 8" by (simp add: well_formed_def)
      then have v: "be_nat (be_bytes 8 ?n) = ?n" by (rule be_nat_be_bytes)
      have "be_bytes 8 ?n \<noteq> []" using be_bytes_length [of 8 ?n] by auto
      with ref_sizes_size8_full [of "[]" "be_bytes 8 ?n" mx bits ?f] True v show ?thesis
        by (simp add: be_bytes_length)
    next
      case False
      with assms fr have "?n < 256" by (simp add: well_formed_def)
      with False show ?thesis by (simp add: unat_byte_of_nat size_event_def)
    qed
  qed
  have pay: "\<not> too_large mx bits ?n \<Longrightarrow> 0 < ?n \<Longrightarrow>
             ref_run mx bits (AwaitPayload ?f ?n []) p = ([(?f, ?n, p)], AwaitFlags)"
    using ref_run_payload_full [of "[]" p ?n mx bits ?f] by auto
  have run1: "ref_run mx bits AwaitFlags ([fb] @ ?hdr @ p) = ref_run mx bits ?st1 (?hdr @ p)"
    by (simp split: prod.splits)
  show "ref_run mx bits AwaitFlags (encode_frame fr) =
           (if too_large mx bits (length (snd fr)) then ([], Failed)
            else ([frame_view fr], AwaitFlags))"
    unfolding enc run1 ref_run_append [of mx bits ?st1 ?hdr p] hdr
    using pay by (auto simp: ref_size_def ref_run_Failed frame_view_def fr)
  have sz1: "ref_sizes mx bits AwaitFlags ([fb] @ ?hdr @ p) = ref_sizes mx bits ?st1 (?hdr @ p)"
    by (simp add: size_event_def)
  have "ref_sizes mx bits (snd (ref_size mx bits ?f ?n)) p = []"
    using ref_sizes_payload [of "[]" p ?n mx bits ?f]
    by (auto simp: ref_size_def ref_sizes_Failed)
  then show "set (ref_sizes mx bits AwaitFlags (encode_frame fr)) \<subseteq> {length (snd fr)}"
    unfolding enc sz1 ref_sizes_append [of mx bits ?st1 ?hdr p] hdr hsz
    by (simp add: fr)
qed

lemma frames_sizes:
  assumes "\<forall>fr \<in> set frames. well_formed fr"
  shows "set (ref_sizes mx bits AwaitFlags (concat (map encode_frame frames)))
           \<subseteq> (\<lambda>fr. length (snd fr)) ` set frames"
  using assms
proof (induction frames)
  case Nil
  then show ?case by simp
next
  case (Cons fr frames)
  from Cons.prems have wf: "well_formed fr" by simp
  have "ref_sizes mx bits (snd (ref_run mx bits AwaitFlags (encode_frame fr)))
          (concat (map encode_frame frames))
        = (if too_large mx bits (length (snd fr)) then []
           else ref_sizes mx bits AwaitFlags (concat (map encode_frame frames)))"
    by (simp add: frame_run(1) [OF wf] ref_sizes_Failed)
  with frame_run(2) [OF wf, of mx bits] Cons.IH Cons.prems show ?case
    by (auto simp: ref_sizes_append split: if_splits)
qed

lemma frames_run:
  assumes "\<forall>fr \<in> set frames. well_formed fr"
    and "\<forall>fr \<in> set frames. \<not> too_large mx bits (length (snd fr))"
  shows "ref_run mx bits AwaitFlags (concat (map encode_frame frames))
           = (map frame_view frames, AwaitFlags)"
  using assms
proof (induction frames)
  case Nil
  then show ?case by simp
next
  case (Cons fr frames)
  then show ?case by (simp add: ref_run_append frame_run(1))
qed

subsection \<open>The decode loop follows the reference framing\<close>

lemma sim_lift:
  assumes "ref_run mx bits st pre = ([], st2)" and "sim mx bits st2 xs res"
  shows "sim mx bits st (pre @ xs) res"
proof -
  obtain rc rest d' where res: "res = (rc, rest, d')" by (cases res)
  have run: "\<And>ys. ref_run mx bits st (pre @ ys) = ref_run mx bits st2 ys"
    using assms(1) by (simp add: ref_run_append split: prod.splits)
  from assms(2) res consider
      (more) "rc = Ret 0" "rest = []" "fst (ref_run mx bits st2 xs) = []"
        "dec_rel mx d' (snd (ref_run mx bits st2 xs))"
    | (msg) used where "rc = Ret 1" "xs = used @ rest"
        "ref_run mx bits st2 used = ([msg_view (in_progress d')], AwaitFlags)"
        "dec_rel mx d' AwaitFlags"
    | (err) used where "rc = Ret (-1)" "xs = used @ rest" "ref_run mx bits st2 used = ([], Failed)"
    by (auto simp: sim_def)
  then show ?thesis
  proof cases
    case more
    then show ?thesis by (simp add: sim_def res run)
  next
    case msg
    from msg(2,3) have "pre @ xs = (pre @ used) @ rest
        \<and> ref_run mx bits st (pre @ used) = ([msg_view (in_progress d')], AwaitFlags)"
      by (simp add: run)
    with msg(1,4) show ?thesis unfolding sim_def res by blast
  next
    case err
    from err(2,3) have "pre @ xs = (pre @ used) @ rest
        \<and> ref_run mx bits st (pre @ used) = ([], Failed)"
      by (simp add: run)
    with err(1) show ?thesis unfolding sim_def res by blast
  qed
qed

lemma write_at_take: "off \<le> length t \<Longrightarrow> take (off + length bs) (write_at t off bs) = take off t @ bs"
  by (simp add: write_at_def)

lemma write_at_length: "off + length bs \<le> length t \<Longrightarrow> length (write_at t off bs) = length t"
  by (simp add: write_at_def)

lemma write_at_full:
  "off + length bs = length t \<Longrightarrow> write_at t off bs = take off t @ bs"
  by (simp add: write_at_def)

lemma dec_rel_to_read: "dec_rel mx d st \<Longrightarrow> 0 < to_read d"
  by (cases st) (auto simp: dec_rel_def)

lemma stage_empty:
  assumes "dec_rel mx d st"
  shows "sim mx bits st [] (decode_loop env d pos [])"
proof -
  from assms have "0 < to_read d" by (rule dec_rel_to_read)
  then have "decode_loop env d pos [] = (Ret 0, [], d)" by (rule decode_loop_empty)
  with assms show ?thesis by (simp add: sim_def)
qed

lemma stage_flags:
  assumes "dec_rel mx d AwaitFlags"
  shows "\<exists>d2. decode_loop env d pos (b # xs) = decode_loop env d2 (pos + 1) xs
              \<and> dec_rel mx d2 (snd (ref_step mx bits AwaitFlags b))"
proof -
  let ?d1 = "copy_bytes d [b]"
  from assms have d: "to_read d = 1" "read_pos d = in_tmpbuf 0" "length (tmpbuf d) = 8"
    "next_fn d = flags_ready_step" "maxmsgsize d = mx"
    by (simp_all add: dec_rel_def)
  have 1: "decode_loop env d pos (b # xs) = decode_loop env ?d1 (pos + 1) xs"
    using decode_loop_copy [of d "b # xs" env pos] d(1) by simp
  have t: "tmpbuf ?d1 = b # drop 1 (tmpbuf d)" "to_read ?d1 = 0" "next_fn ?d1 = flags_ready_step"
    "maxmsgsize ?d1 = mx"
    using d by (simp_all add: copy_bytes_def write_at_def)
  obtain d2 where d2: "d2 = snd (flags_ready ?d1)" by simp
  have cn: "call_next env ?d1 (pos + 1) xs = (Ret 0, d2)"
    using t(3) d2 by (simp add: call_next_def flags_ready_def Let_def)
  have 2: "decode_loop env ?d1 (pos + 1) xs = decode_loop env d2 (pos + 1) xs"
    using t(2) cn by (rule decode_loop_run)
  have "dec_rel mx d2 (snd (ref_step mx bits AwaitFlags b))"
    using t d(3) unfolding d2
    by (simp add: dec_rel_def flags_ready_def next_step_def Let_def)
  with 1 2 show ?thesis by auto
qed

lemma stage_payload:
  assumes rel: "dec_rel mx d (AwaitPayload f n acc)" and ne: "input \<noteq> []"
  shows "sim mx bits (AwaitPayload f n acc) input (decode_loop env d pos input)"
proof -
  let ?k = "min (to_read d) (length input)"
  let ?d1 = "copy_bytes d (take ?k input)"
  let ?m = "in_progress d"
  from rel have d: "next_fn d = message_ready_step" "length acc < n"
    "to_read d = n - length acc" "read_pos d = in_msg (length acc)"
    "length (data ?m) = n" "take (length acc) (data ?m) = acc"
    "flags ?m = f" "maxmsgsize d = mx" "length (tmpbuf d) = 8"
    by (simp_all add: dec_rel_def)
  from d(2,3) have pos: "0 < to_read d" by simp
  have 1: "decode_loop env d pos input = decode_loop env ?d1 (pos + ?k) (drop ?k input)"
    using pos ne by (rule decode_loop_copy)
  have d1: "next_fn ?d1 = message_ready_step" "to_read ?d1 = to_read d - ?k"
    "read_pos ?d1 = in_msg (length acc + ?k)" "maxmsgsize ?d1 = mx" "length (tmpbuf ?d1) = 8"
    "flags (in_progress ?d1) = f"
    "data (in_progress ?d1) = write_at (data ?m) (length acc) (take ?k input)"
    using d by (simp_all add: copy_bytes_def)
  show ?thesis
  proof (cases "length acc + length input < n")
    case True
    with d(3) have k: "?k = length input" by simp
    have 2: "decode_loop env ?d1 (pos + ?k) (drop ?k input) = (Ret 0, [], ?d1)"
      using decode_loop_empty [of ?d1 env "pos + ?k"] d1(2) True d(3) k by simp
    have data1: "data (in_progress ?d1) = write_at (data ?m) (length acc) input"
      using d1(7) k by simp
    have "take (length acc + length input) (write_at (data ?m) (length acc) input) = acc @ input"
      using write_at_take [of "length acc" "data ?m" input] d(2,5,6) by simp
    moreover have "length (write_at (data ?m) (length acc) input) = n"
      using write_at_length [of "length acc" input "data ?m"] True d(5) by simp
    ultimately have "dec_rel mx ?d1 (AwaitPayload f n (acc @ input))"
      using d1 True d(3) k data1 by (simp add: dec_rel_def)
    with True show ?thesis
      unfolding 1 2 by (simp add: sim_def ref_run_payload_part)
  next
    case False
    with d(2,3) have k: "?k = n - length acc" "0 < ?k" "?k \<le> length input" by simp_all
    let ?d' = "next_step (in_tmpbuf 0) 1 flags_ready_step ?d1"
    have tr: "to_read ?d1 = 0" using d1(2) k(1) d(3) by simp
    have cn: "call_next env ?d1 (pos + ?k) (drop ?k input) = (Ret 1, ?d')"
      using d1(1) by (simp add: call_next_def message_ready_def)
    have 2: "decode_loop env ?d1 (pos + ?k) (drop ?k input) = (Ret 1, drop ?k input, ?d')"
      using tr cn by (rule decode_loop_stop) simp
    have len: "length (take ?k input) = n - length acc" using k by simp
    have full: "data (in_progress ?d1) = acc @ take ?k input"
      using write_at_full [of "length acc" "take ?k input" "data ?m"] d(2,5,6) d1(7) len by simp
    have view: "msg_view (in_progress ?d') = (f, n, acc @ take ?k input)"
      using full d1(6) d(2) len by (simp add: msg_view_def msg_size_def next_step_def)
    have run: "ref_run mx bits (AwaitPayload f n acc) (take ?k input)
                 = ([(f, n, acc @ take ?k input)], AwaitFlags)"
      using ref_run_payload_full [of acc "take ?k input" n mx bits f] len d(2) k(2) ne
      by (cases input) auto
    have rel': "dec_rel mx ?d' AwaitFlags"
      using d1 by (simp add: dec_rel_def next_step_def)
    have "input = take ?k input @ drop ?k input" by simp
    with view run rel' show ?thesis
      unfolding 1 2 sim_def by (simp only: prod.case) blast
  qed
qed

lemma too_large_iff:
  "too_large mx bits (unat sz) \<longleftrightarrow>
     (0 \<le> sint mx \<and> mx < sz) \<or> 2 ^ bits \<le> unat sz"
  by (simp add: too_large_def word_less_nat_alt)

text \<open>
  The moment a size header is complete: \<open>size_ready\<close> runs on the decoded size, and
  the loop goes on with the bytes that follow.  The allocation is needed for an
  admitted size only.
\<close>

lemma size_moment:
  assumes okn: "\<not> too_large mx (size_t_bits env) (unat sz) \<Longrightarrow> alloc_ok env (unat sz)"
    and d0: "to_read d0 = 0" "call_next env d0 pos xs = size_ready env d0 sz pos xs"
      "maxmsgsize d0 = mx" "length (tmpbuf d0) = 8" "msg_flags d0 = f"
    and run: "ref_run mx (size_t_bits env) st pre = ref_size mx (size_t_bits env) f (unat sz)"
  shows "sim mx (size_t_bits env) st (pre @ xs) (decode_loop env d0 pos xs)"
proof (cases "too_large mx (size_t_bits env) (unat sz)")
  case True
  then have "size_ready env d0 sz pos xs = (Ret (-1), d0\<lparr>d_errno := EMSGSIZE\<rparr>)"
    using size_ready_too_large [of d0 sz env pos xs] size_ready_no_fit [of env sz d0 pos xs] d0(3)
    by (auto simp: too_large_iff)
  with d0(1,2) have "decode_loop env d0 pos xs = (Ret (-1), xs, d0\<lparr>d_errno := EMSGSIZE\<rparr>)"
    using decode_loop_stop [of d0 env pos xs "Ret (-1)" "d0\<lparr>d_errno := EMSGSIZE\<rparr>"] by simp
  moreover from True run have "ref_run mx (size_t_bits env) st pre = ([], Failed)"
    by (simp add: ref_size_def)
  ultimately show ?thesis unfolding sim_def by (simp only: prod.case) blast
next
  case False
  let ?n = "unat sz"
  obtain rc d2 where sr: "size_ready env d0 sz pos xs = (rc, d2)"
    by (cases "size_ready env d0 sz pos xs")
  from False d0(3) have ok: "\<not> (0 \<le> sint (maxmsgsize d0) \<and> maxmsgsize d0 < sz)"
    "?n < 2 ^ size_t_bits env"
    by (auto simp: too_large_iff)
  from size_ready_accept [OF ok okn [OF False] sr] d0(3,4,5)
  have d2: "rc = Ret 0" "next_fn d2 = message_ready_step" "to_read d2 = ?n"
    "read_pos d2 = in_msg 0" "length (tmpbuf d2) = 8" "maxmsgsize d2 = mx"
    "length (data (in_progress d2)) = ?n" "flags (in_progress d2) = f"
    by simp_all
  have 1: "decode_loop env d0 pos xs = decode_loop env d2 pos xs"
    using d0(1,2) sr d2(1) decode_loop_run [of d0 env pos xs d2] by simp
  show ?thesis
  proof (cases "?n = 0")
    case True
    let ?d3 = "next_step (in_tmpbuf 0) 1 flags_ready_step d2"
    have cn: "call_next env d2 pos xs = (Ret 1, ?d3)"
      using d2(2) by (simp add: call_next_def message_ready_def)
    have 2: "decode_loop env d2 pos xs = (Ret 1, xs, ?d3)"
      using decode_loop_stop [of d2 env pos xs "Ret 1" ?d3] d2(3) True cn by simp
    have view: "msg_view (in_progress ?d3) = (f, 0, [])"
      using d2(7,8) True by (simp add: msg_view_def msg_size_def next_step_def)
    have rel': "dec_rel mx ?d3 AwaitFlags"
      using d2 by (simp add: dec_rel_def next_step_def)
    from run False True have "ref_run mx (size_t_bits env) st pre = ([(f, 0, [])], AwaitFlags)"
      by (simp add: ref_size_def)
    with view rel' show ?thesis
      unfolding 1 2 sim_def by (simp only: prod.case) auto
  next
    case pos: False
    from run False pos
    have pre: "ref_run mx (size_t_bits env) st pre = ([], AwaitPayload f ?n [])"
      by (simp add: ref_size_def)
    from d2 pos have rel2: "dec_rel mx d2 (AwaitPayload f ?n [])"
      by (simp add: dec_rel_def)
    have "sim mx (size_t_bits env) (AwaitPayload f ?n []) xs (decode_loop env d2 pos xs)"
    proof (cases "xs = []")
      case True
      with rel2 show ?thesis by (simp add: stage_empty)
    next
      case False
      with rel2 show ?thesis by (rule stage_payload)
    qed
    with pre show ?thesis unfolding 1 by (rule sim_lift)
  qed
qed

lemma unat_ucast_byte: "unat (ucast (b :: byte) :: 64 word) = unat b"
  using unat_push_byte [of 0 b] by simp

lemma stage_size1:
  assumes okn: "\<not> too_large mx (size_t_bits env) (unat b) \<Longrightarrow> alloc_ok env (unat b)"
    and rel: "dec_rel mx d (AwaitSize1 f)"
  shows "sim mx (size_t_bits env) (AwaitSize1 f) (b # xs) (decode_loop env d pos (b # xs))"
proof -
  let ?d1 = "copy_bytes d [b]"
  from rel have d: "to_read d = 1" "read_pos d = in_tmpbuf 0" "length (tmpbuf d) = 8"
    "next_fn d = one_byte_size_ready_step" "maxmsgsize d = mx" "msg_flags d = f"
    by (simp_all add: dec_rel_def)
  have 1: "decode_loop env d pos (b # xs) = decode_loop env ?d1 (pos + 1) xs"
    using decode_loop_copy [of d "b # xs" env pos] d(1) by simp
  have d1: "to_read ?d1 = 0" "tmpbuf ?d1 ! 0 = b" "length (tmpbuf ?d1) = 8"
    "next_fn ?d1 = one_byte_size_ready_step" "maxmsgsize ?d1 = mx" "msg_flags ?d1 = f"
    using d by (simp_all add: copy_bytes_def write_at_def)
  have cn: "call_next env ?d1 (pos + 1) xs = size_ready env ?d1 (ucast b) (pos + 1) xs"
    using d1(2,4) by (simp add: call_next_def one_byte_size_ready_def)
  have run: "ref_run mx (size_t_bits env) (AwaitSize1 f) [b]
               = ref_size mx (size_t_bits env) f (unat (ucast b :: 64 word))"
    by (simp add: unat_ucast_byte split: prod.splits)
  have okn': "\<not> too_large mx (size_t_bits env) (unat (ucast b :: 64 word)) \<Longrightarrow>
              alloc_ok env (unat (ucast b :: 64 word))"
    using okn by (simp add: unat_ucast_byte)
  have "sim mx (size_t_bits env) (AwaitSize1 f) ([b] @ xs) (decode_loop env ?d1 (pos + 1) xs)"
    using okn' d1(1) cn d1(5,3,6) run by (rule size_moment)
  then show ?thesis unfolding 1 by simp
qed

lemma stage_size8:
  assumes ok: "\<And>n. n \<in> set (ref_sizes mx (size_t_bits env) (AwaitSize8 f acc) input) \<Longrightarrow>
                 alloc_ok env n"
    and rel: "dec_rel mx d (AwaitSize8 f acc)"
    and ne: "input \<noteq> []"
  shows "sim mx (size_t_bits env) (AwaitSize8 f acc) input (decode_loop env d pos input)"
proof -
  let ?k = "min (to_read d) (length input)"
  let ?pre = "take ?k input"
  let ?d1 = "copy_bytes d ?pre"
  from rel have d: "next_fn d = eight_byte_size_ready_step" "length acc < 8"
    "to_read d = 8 - length acc" "read_pos d = in_tmpbuf (length acc)"
    "take (length acc) (tmpbuf d) = acc" "msg_flags d = f" "maxmsgsize d = mx"
    "length (tmpbuf d) = 8"
    by (simp_all add: dec_rel_def)
  from d(2,3) have pos: "0 < to_read d" by simp
  have 1: "decode_loop env d pos input = decode_loop env ?d1 (pos + ?k) (drop ?k input)"
    using pos ne by (rule decode_loop_copy)
  have d1: "next_fn ?d1 = eight_byte_size_ready_step" "to_read ?d1 = to_read d - ?k"
    "read_pos ?d1 = in_tmpbuf (length acc + ?k)" "maxmsgsize ?d1 = mx" "msg_flags ?d1 = f"
    "tmpbuf ?d1 = write_at (tmpbuf d) (length acc) ?pre"
    using d by (simp_all add: copy_bytes_def)
  show ?thesis
  proof (cases "length acc + length input < 8")
    case True
    with d(3) have k: "?k = length input" by simp
    have 2: "decode_loop env ?d1 (pos + ?k) (drop ?k input) = (Ret 0, [], ?d1)"
      using decode_loop_empty [of ?d1 env "pos + ?k"] d1(2) True d(3) k by simp
    have t1: "tmpbuf ?d1 = write_at (tmpbuf d) (length acc) input"
      using d1(6) k by simp
    have "take (length acc + length input) (write_at (tmpbuf d) (length acc) input) = acc @ input"
      using write_at_take [of "length acc" "tmpbuf d" input] d(2,5,8) by simp
    moreover have "length (write_at (tmpbuf d) (length acc) input) = 8"
      using write_at_length [of "length acc" input "tmpbuf d"] True d(8) by simp
    ultimately have "dec_rel mx ?d1 (AwaitSize8 f (acc @ input))"
      using d1 True d(3) k t1 by (simp add: dec_rel_def)
    with True show ?thesis
      unfolding 1 2 by (simp add: sim_def ref_run_size8_part)
  next
    case False
    with d(2,3) have k: "?k = 8 - length acc" "0 < ?k" "?k \<le> length input" by simp_all
    have len: "length ?pre = 8 - length acc" using k by simp
    have t1: "tmpbuf ?d1 = acc @ ?pre"
      using write_at_full [of "length acc" ?pre "tmpbuf d"] d(2,5,8) d1(6) len by simp
    have l8: "length (tmpbuf ?d1) = 8" using t1 len d(2) by simp
    have tr: "to_read ?d1 = 0" using d1(2) k(1) d(3) by simp
    have cn: "call_next env ?d1 (pos + ?k) (drop ?k input)
                = size_ready env ?d1 (get_uint64 (acc @ ?pre)) (pos + ?k) (drop ?k input)"
      using d1(1) t1 by (simp add: call_next_def eight_byte_size_ready_def)
    have u: "unat (get_uint64 (acc @ ?pre)) = be_nat (acc @ ?pre)"
      using get_uint64_be_nat [of "acc @ ?pre"] len d(2) by simp
    have pne: "?pre \<noteq> []" using len d(2) by auto
    have run: "ref_run mx (size_t_bits env) (AwaitSize8 f acc) ?pre
                 = ref_size mx (size_t_bits env) f (unat (get_uint64 (acc @ ?pre)))"
      using ref_run_size8_full [of acc ?pre mx "size_t_bits env" f] len d(2) pne u by simp
    have "ref_sizes mx (size_t_bits env) (AwaitSize8 f acc) (?pre @ drop ?k input)
            = (if too_large mx (size_t_bits env) (be_nat (acc @ ?pre)) then []
               else [be_nat (acc @ ?pre)])
              @ ref_sizes mx (size_t_bits env)
                  (snd (ref_run mx (size_t_bits env) (AwaitSize8 f acc) ?pre)) (drop ?k input)"
      using ref_sizes_size8_full [of acc ?pre mx "size_t_bits env" f] len d(2) pne
      by (simp only: ref_sizes_append) simp
    then have okn: "\<not> too_large mx (size_t_bits env) (unat (get_uint64 (acc @ ?pre))) \<Longrightarrow>
              alloc_ok env (unat (get_uint64 (acc @ ?pre)))"
      using ok [of "be_nat (acc @ ?pre)"] u by simp
    have "sim mx (size_t_bits env) (AwaitSize8 f acc) (?pre @ drop ?k input)
            (decode_loop env ?d1 (pos + ?k) (drop ?k input))"
      using okn tr cn d1(4) l8 d1(5) run by (rule size_moment)
    then show ?thesis unfolding 1 by simp
  qed
qed

lemma decode_sim:
  assumes ok: "\<And>n. n \<in> set (ref_sizes mx (size_t_bits env) st input) \<Longrightarrow> alloc_ok env n"
    and rel: "dec_rel mx d st"
  shows "sim mx (size_t_bits env) st input (decode_loop env d pos input)"
proof (cases input)
  case Nil
  with rel show ?thesis by (simp add: stage_empty)
next
  case (Cons b xs)
  then have ne: "input \<noteq> []" by simp
  let ?bits = "size_t_bits env"
  show ?thesis
  proof (cases st)
    case AwaitFlags
    let ?st2 = "snd (ref_step mx ?bits AwaitFlags b)"
    from rel AwaitFlags obtain d2
      where d2: "decode_loop env d pos (b # xs) = decode_loop env d2 (pos + 1) xs"
        "dec_rel mx d2 ?st2"
      using stage_flags [of mx d env pos b xs ?bits] by blast
    have run: "ref_run mx ?bits AwaitFlags [b] = ([], ?st2)"
      by simp
    have ok2: "\<And>n. n \<in> set (ref_sizes mx ?bits ?st2 xs) \<Longrightarrow> alloc_ok env n"
      using ok unfolding Cons AwaitFlags by (simp add: size_event_def)
    have "sim mx ?bits ?st2 xs (decode_loop env d2 (pos + 1) xs)"
    proof (cases xs)
      case Nil
      with d2(2) show ?thesis by (simp add: stage_empty)
    next
      case tl: (Cons b' xs')
      then have xne: "xs \<noteq> []" by simp
      show ?thesis
      proof (cases "b AND large_flag \<noteq> 0")
        case True
        then have st2: "?st2 = AwaitSize8 (wire_flags b) []" by simp
        from ok2 d2(2) xne show ?thesis
          unfolding st2 by (rule stage_size8)
      next
        case False
        then have st2: "?st2 = AwaitSize1 (wire_flags b)" by simp
        have "\<not> too_large mx ?bits (unat b') \<Longrightarrow> alloc_ok env (unat b')"
          using ok2 [of "unat b'"] unfolding st2 tl by (simp add: size_event_def)
        then show ?thesis
          using d2(2) unfolding st2 tl by (rule stage_size1)
      qed
    qed
    with run have "sim mx ?bits AwaitFlags ([b] @ xs) (decode_loop env d2 (pos + 1) xs)"
      by (rule sim_lift)
    with d2(1) Cons AwaitFlags show ?thesis by simp
  next
    case (AwaitSize1 f)
    have "\<not> too_large mx ?bits (unat b) \<Longrightarrow> alloc_ok env (unat b)"
      using ok [of "unat b"] unfolding AwaitSize1 Cons by (simp add: size_event_def)
    then have "sim mx ?bits (AwaitSize1 f) (b # xs) (decode_loop env d pos (b # xs))"
      using rel [unfolded AwaitSize1] by (rule stage_size1)
    with Cons AwaitSize1 show ?thesis by simp
  next
    case (AwaitSize8 f acc)
    show ?thesis
      unfolding AwaitSize8
      using ok [unfolded AwaitSize8] rel [unfolded AwaitSize8] ne by (rule stage_size8)
  next
    case (AwaitPayload f n acc)
    show ?thesis
      unfolding AwaitPayload
      using rel [unfolded AwaitPayload] ne by (rule stage_payload)
  next
    case Failed
    with rel show ?thesis by (simp add: dec_rel_def)
  qed
qed

lemma feed_sim:
  assumes ok: "\<And>n. n \<in> set (ref_sizes mx (size_t_bits env) st input) \<Longrightarrow> alloc_ok env n"
    and rel: "dec_rel mx d st"
  shows "fed mx (size_t_bits env) st input (feed env d pos input)"
  using ok rel
proof (induction "length input" arbitrary: input d st pos rule: less_induct)
  case less
  note IH = less.hyps and ok = less.prems(1) and rel = less.prems(2)
  let ?bits = "size_t_bits env"
  show ?case
  proof (cases "input = []")
    case True
    with rel show ?thesis by (simp add: feed.simps fed_def)
  next
    case ne: False
    obtain rc rest d1 where dl: "decode_loop env d pos input = (rc, rest, d1)"
      by (cases "decode_loop env d pos input")
    then have dec: "decode env d pos input = (rc, length input - length rest, d1)"
      by (simp add: decode_def)
    from decode_loop_rest [OF dl] dec_rel_to_read [OF rel] ne
    obtain used where used: "input = used @ rest" and shorter: "length rest < length input"
      by blast
    then have drop: "drop (length input - length rest) input = rest" by simp
    from decode_sim [of mx env st input d pos, OF ok rel] dl
    have s: "sim mx ?bits st input (rc, rest, d1)" by simp
    then consider
        (more) "rc = Ret 0" "rest = []" "fst (ref_run mx ?bits st input) = []"
          "dec_rel mx d1 (snd (ref_run mx ?bits st input))"
      | (msg) u where "rc = Ret 1" "input = u @ rest"
          "ref_run mx ?bits st u = ([msg_view (in_progress d1)], AwaitFlags)"
          "dec_rel mx d1 AwaitFlags"
      | (err) u where "rc = Ret (-1)" "input = u @ rest" "ref_run mx ?bits st u = ([], Failed)"
      by (auto simp: sim_def)
    then show ?thesis
    proof cases
      case more
      with ne dec show ?thesis
        by (subst feed.simps) (simp add: fed_def)
    next
      case err
      from err(2,3) have "ref_run mx ?bits st input = ([], Failed)"
        by (simp add: ref_run_append ref_run_Failed)
      with ne dec err(1) show ?thesis
        by (subst feed.simps) (simp add: fed_def)
    next
      case msg
      let ?d2 = "d1\<lparr>in_progress := empty_msg\<rparr>"
      let ?pos2 = "pos + (length input - length rest)"
      obtain ms rc' d'' where f: "feed env ?d2 ?pos2 rest = (ms, rc', d'')"
        by (cases "feed env ?d2 ?pos2 rest")
      from msg(4) have rel2: "dec_rel mx ?d2 AwaitFlags" by (simp add: dec_rel_def)
      have ok2: "\<And>n. n \<in> set (ref_sizes mx ?bits AwaitFlags rest) \<Longrightarrow> alloc_ok env n"
        using ok msg(2,3) by (simp add: ref_sizes_append)
      from IH [OF shorter ok2 rel2, of ?pos2] f
      have tl: "fed mx ?bits AwaitFlags rest (ms, rc', d'')" by simp
      have feed: "feed env d pos input = (in_progress d1 # ms, rc', d'')"
        using ne dec msg(1) drop f by (subst feed.simps) simp
      obtain out st' where r: "ref_run mx ?bits AwaitFlags rest = (out, st')"
        by (cases "ref_run mx ?bits AwaitFlags rest")
      with msg(2,3) have "ref_run mx ?bits st input = (msg_view (in_progress d1) # out, st')"
        by (simp add: ref_run_append)
      with tl r show ?thesis unfolding feed by (simp add: fed_def)
    qed
  qed
qed

lemma feed_chunks_sim:
  assumes ok: "\<And>n. n \<in> set (ref_sizes mx (size_t_bits env) st (concat (map snd cs))) \<Longrightarrow>
                 alloc_ok env n"
    and rel: "dec_rel mx d st"
  shows "fed mx (size_t_bits env) st (concat (map snd cs)) (feed_chunks env d cs)"
  using ok rel
proof (induction cs arbitrary: d st)
  case Nil
  then show ?case by (simp add: fed_def)
next
  case (Cons c cs)
  let ?bits = "size_t_bits env"
  note ok = Cons.prems(1) and rel = Cons.prems(2)
  obtain ms rc d1 where f: "feed env d (fst c) (snd c) = (ms, rc, d1)"
    by (cases "feed env d (fst c) (snd c)")
  obtain out st1 where r: "ref_run mx ?bits st (snd c) = (out, st1)"
    by (cases "ref_run mx ?bits st (snd c)")
  have ok1: "\<And>n. n \<in> set (ref_sizes mx ?bits st (snd c)) \<Longrightarrow> alloc_ok env n"
    using ok by (simp add: ref_sizes_append)
  have ok2: "\<And>n. n \<in> set (ref_sizes mx ?bits st1 (concat (map snd cs))) \<Longrightarrow> alloc_ok env n"
    using ok r by (simp add: ref_sizes_append)
  from feed_sim [of mx env st "snd c" d "fst c", OF ok1 rel] f r
  have hd: "out = map msg_view ms"
    "rc = Ret 0 \<and> dec_rel mx d1 st1 \<or> rc = Ret (-1) \<and> st1 = Failed"
    by (simp_all add: fed_def)
  show ?case
  proof (cases "rc = Ret 0")
    case True
    with hd(2) have rel1: "dec_rel mx d1 st1" by simp
    obtain ms' rc' d2 where g: "feed_chunks env d1 cs = (ms', rc', d2)"
      by (cases "feed_chunks env d1 cs")
    from Cons.IH [OF ok2 rel1] g
    have "fed mx ?bits st1 (concat (map snd cs)) (ms', rc', d2)" by simp
    with f g True r hd(1) show ?thesis
      by (auto simp: fed_def ref_run_append split: prod.splits)
  next
    case False
    with hd(2) have "rc = Ret (-1)" "st1 = Failed" by simp_all
    with f r hd(1) show ?thesis
      by (simp add: fed_def ref_run_append ref_run_Failed)
  qed
qed

lemma init_rel: "dec_rel mx (v2_decoder_init mx zc e) AwaitFlags"
  by (simp add: dec_rel_def v2_decoder_init_def msg_init_def next_step_def)

lemma fed_determined:
  assumes "fed mx bits st input (ms, rc, d)" and "fed mx bits st input (ms', rc', d')"
  shows "map msg_view ms = map msg_view ms' \<and> rc = rc'"
  using assms by (auto simp: fed_def dec_rel_def)

subsection \<open>Chunking\<close>

text \<open>
  Claim C1.  As stated, for every concatenation of well-formed frames and every
  chunking, the claim does not hold: which branch \<open>size_ready\<close> takes depends on how
  much of the payload is in the window, and the branch that allocates can fail.  The
  frame \<open>00 01 2a\<close>, given whole to a zero-copy decoder whose allocator has no memory
  left, yields its message as a view of the window; given as \<open>00 01\<close> and \<open>2a\<close>, it
  makes the decoder call \<open>init_size\<close> at the end of the first chunk, which fails, and
  the decoder returns \<open>-1\<close> with no message.  The same happens with a payload of 64
  bytes and an allocator that still serves requests of up to 33 bytes.
\<close>

theorem chunking_dependent:
  "well_formed (0x00, [0x2a])
   \<and> concat (map snd [(4096 :: nat, [0x00, 0x01, 0x2a :: byte])])
       = concat (map encode_frame [(0x00, [0x2a])])
   \<and> concat (map snd [(4096 :: nat, [0x00, 0x01]), (4096, [0x2a :: byte])])
       = concat (map encode_frame [(0x00, [0x2a])])
   \<and> map msg_view (fst (feed_chunks
         \<lparr>size_t_bits = 64, alloc_ok = (\<lambda>_. False), arena_copied = (\<lambda>_. False)\<rparr>
         (v2_decoder_init (-1) True ENONE) [(4096, [0x00, 0x01, 0x2a])])) = [(0, 1, [0x2a])]
   \<and> fst (snd (feed_chunks
         \<lparr>size_t_bits = 64, alloc_ok = (\<lambda>_. False), arena_copied = (\<lambda>_. False)\<rparr>
         (v2_decoder_init (-1) True ENONE) [(4096, [0x00, 0x01, 0x2a])])) = Ret 0
   \<and> map msg_view (fst (feed_chunks
         \<lparr>size_t_bits = 64, alloc_ok = (\<lambda>_. False), arena_copied = (\<lambda>_. False)\<rparr>
         (v2_decoder_init (-1) True ENONE) [(4096, [0x00, 0x01]), (4096, [0x2a])])) = []
   \<and> fst (snd (feed_chunks
         \<lparr>size_t_bits = 64, alloc_ok = (\<lambda>_. False), arena_copied = (\<lambda>_. False)\<rparr>
         (v2_decoder_init (-1) True ENONE) [(4096, [0x00, 0x01]), (4096, [0x2a])])) = Ret (-1)
   \<and> well_formed (0x00, replicate 64 0x2a)
   \<and> concat (map snd [(4096 :: nat, 0x00 # 0x40 # replicate 64 (0x2a :: byte))])
       = concat (map encode_frame [(0x00, replicate 64 0x2a)])
   \<and> concat (map snd [(4096 :: nat, [0x00, 0x40]), (4096, replicate 64 (0x2a :: byte))])
       = concat (map encode_frame [(0x00, replicate 64 0x2a)])
   \<and> map msg_view (fst (feed_chunks
         \<lparr>size_t_bits = 64, alloc_ok = (\<lambda>n. n \<le> 33), arena_copied = (\<lambda>n. n < 33)\<rparr>
         (v2_decoder_init (-1) True ENONE) [(4096, 0x00 # 0x40 # replicate 64 0x2a)]))
       = [(0, 64, replicate 64 0x2a)]
   \<and> fst (snd (feed_chunks
         \<lparr>size_t_bits = 64, alloc_ok = (\<lambda>n. n \<le> 33), arena_copied = (\<lambda>n. n < 33)\<rparr>
         (v2_decoder_init (-1) True ENONE) [(4096, 0x00 # 0x40 # replicate 64 0x2a)])) = Ret 0
   \<and> map msg_view (fst (feed_chunks
         \<lparr>size_t_bits = 64, alloc_ok = (\<lambda>n. n \<le> 33), arena_copied = (\<lambda>n. n < 33)\<rparr>
         (v2_decoder_init (-1) True ENONE)
         [(4096, [0x00, 0x40]), (4096, replicate 64 0x2a)])) = []
   \<and> fst (snd (feed_chunks
         \<lparr>size_t_bits = 64, alloc_ok = (\<lambda>n. n \<le> 33), arena_copied = (\<lambda>n. n < 33)\<rparr>
         (v2_decoder_init (-1) True ENONE)
         [(4096, [0x00, 0x40]), (4096, replicate 64 0x2a)])) = Ret (-1)"
  by code_simp

text \<open>
  Claim C1, amended.  Take a concatenation of well-formed frames and any two ways of
  cutting it into consecutive chunks, each chunk stored at some address.  Suppose the
  allocation for each frame's payload succeeds, and every chunk ends low enough in the
  address space for the pointer sum \<open>read_pos + msg_size\<close> of \<open>size_ready\<close> not to
  wrap: the end address of the chunk plus the length of the stream is below
  \<open>2 ^ size_t_bits\<close>.  Fed to a fresh decoder chunk by chunk, both cuts yield the same
  sequence of messages, with the same flags, sizes and payload bytes, and end with the
  same status.  When no frame is over the size limit, the messages are those of the
  frames, in order, and the status is \<open>0\<close>.  One byte at a time and all at once are
  two such cuts.
\<close>

theorem chunking_independent:
  assumes "\<forall>fr \<in> set frames. well_formed fr \<and> alloc_ok env (length (snd fr))"
    and "concat (map snd cs1) = concat (map encode_frame frames)"
    and "concat (map snd cs2) = concat (map encode_frame frames)"
    and "\<forall>c \<in> set cs1 \<union> set cs2.
           fst c + length (snd c) + length (concat (map encode_frame frames))
             < 2 ^ size_t_bits env"
  shows "map msg_view (fst (feed_chunks env (v2_decoder_init mx zc e) cs1))
           = map msg_view (fst (feed_chunks env (v2_decoder_init mx zc e) cs2))
         \<and> fst (snd (feed_chunks env (v2_decoder_init mx zc e) cs1))
           = fst (snd (feed_chunks env (v2_decoder_init mx zc e) cs2))
         \<and> ((\<forall>fr \<in> set frames. \<not> too_large mx (size_t_bits env) (length (snd fr))) \<longrightarrow>
              map msg_view (fst (feed_chunks env (v2_decoder_init mx zc e) cs1))
                = map frame_view frames
              \<and> fst (snd (feed_chunks env (v2_decoder_init mx zc e) cs1)) = Ret 0)"
proof -
  let ?d0 = "v2_decoder_init mx zc e"
  let ?bits = "size_t_bits env"
  let ?s = "concat (map encode_frame frames)"
  obtain ms1 rc1 d1 where 1: "feed_chunks env ?d0 cs1 = (ms1, rc1, d1)"
    by (cases "feed_chunks env ?d0 cs1")
  obtain ms2 rc2 d2 where 2: "feed_chunks env ?d0 cs2 = (ms2, rc2, d2)"
    by (cases "feed_chunks env ?d0 cs2")
  from assms(1) have wf: "\<forall>fr \<in> set frames. well_formed fr" by simp
  have ok: "\<And>n. n \<in> set (ref_sizes mx ?bits AwaitFlags ?s) \<Longrightarrow> alloc_ok env n"
    using frames_sizes [OF wf, of mx ?bits] assms(1) by auto
  have f1: "fed mx ?bits AwaitFlags ?s (ms1, rc1, d1)"
    using feed_chunks_sim [of mx env AwaitFlags cs1 ?d0] ok init_rel [of mx zc e] 1 assms(2)
    by simp
  have f2: "fed mx ?bits AwaitFlags ?s (ms2, rc2, d2)"
    using feed_chunks_sim [of mx env AwaitFlags cs2 ?d0] ok init_rel [of mx zc e] 2 assms(3)
    by simp
  from f1 f2 have same: "map msg_view ms1 = map msg_view ms2 \<and> rc1 = rc2"
    by (rule fed_determined)
  have "map msg_view ms1 = map frame_view frames \<and> rc1 = Ret 0"
    if "\<forall>fr \<in> set frames. \<not> too_large mx ?bits (length (snd fr))"
    using f1 frames_run [OF wf that] by (auto simp: fed_def)
  with same show ?thesis unfolding 1 2 by simp
qed

text \<open>The two-frame scenario of the specification, all at once and one byte at a time.\<close>

theorem chunking_independent_witness:
  "well_formed (0x01, [0x41, 0x42, 0x43]) \<and> well_formed (0x00, [0x44, 0x45])
   \<and> concat (map snd [(4096 :: nat, [0x01, 0x03, 0x41, 0x42, 0x43, 0x00, 0x02, 0x44, 0x45 :: byte])])
       = concat (map encode_frame [(0x01, [0x41, 0x42, 0x43]), (0x00, [0x44, 0x45])])
   \<and> concat (map snd [(4096 :: nat, [0x01]), (4096, [0x03]), (4096, [0x41]), (4096, [0x42]),
                       (4096, [0x43]), (4096, [0x00]), (4096, [0x02]), (4096, [0x44]),
                       (4096, [0x45 :: byte])])
       = concat (map encode_frame [(0x01, [0x41, 0x42, 0x43]), (0x00, [0x44, 0x45])])
   \<and> map msg_view (fst (feed_chunks
         \<lparr>size_t_bits = 64, alloc_ok = (\<lambda>n. n < 4), arena_copied = (\<lambda>n. n < 30)\<rparr>
         (v2_decoder_init (-1) True ENONE)
         [(4096, [0x01, 0x03, 0x41, 0x42, 0x43, 0x00, 0x02, 0x44, 0x45])]))
       = [(1, 3, [0x41, 0x42, 0x43]), (0, 2, [0x44, 0x45])]
   \<and> map msg_view (fst (feed_chunks
         \<lparr>size_t_bits = 64, alloc_ok = (\<lambda>n. n < 4), arena_copied = (\<lambda>n. n < 30)\<rparr>
         (v2_decoder_init (-1) True ENONE)
         [(4096, [0x01]), (4096, [0x03]), (4096, [0x41]), (4096, [0x42]), (4096, [0x43]),
          (4096, [0x00]), (4096, [0x02]), (4096, [0x44]), (4096, [0x45])]))
       = [(1, 3, [0x41, 0x42, 0x43]), (0, 2, [0x44, 0x45])]
   \<and> fst (snd (feed_chunks
         \<lparr>size_t_bits = 64, alloc_ok = (\<lambda>n. n < 4), arena_copied = (\<lambda>n. n < 30)\<rparr>
         (v2_decoder_init (-1) True ENONE)
         [(4096, [0x01]), (4096, [0x03]), (4096, [0x41]), (4096, [0x42]), (4096, [0x43]),
          (4096, [0x00]), (4096, [0x02]), (4096, [0x44]), (4096, [0x45])])) = Ret 0"
proof -
  let ?env = "\<lparr>size_t_bits = 64, alloc_ok = (\<lambda>n. n < 4), arena_copied = (\<lambda>n. n < 30)\<rparr>"
  let ?d0 = "v2_decoder_init (-1) True ENONE"
  let ?frames = "[(0x01, [0x41, 0x42, 0x43]), (0x00, [0x44, 0x45 :: byte])] :: frame list"
  let ?whole = "[(4096 :: nat, [0x01, 0x03, 0x41, 0x42, 0x43, 0x00, 0x02, 0x44, 0x45 :: byte])]"
  let ?bytes = "[(4096 :: nat, [0x01 :: byte]), (4096, [0x03]), (4096, [0x41]), (4096, [0x42]),
                 (4096, [0x43]), (4096, [0x00]), (4096, [0x02]), (4096, [0x44]), (4096, [0x45])]"
  have wf: "well_formed (0x01, [0x41, 0x42, 0x43])" "well_formed (0x00, [0x44, 0x45])"
    by (simp_all add: well_formed_def large_flag_def)
  have a: "\<forall>fr \<in> set ?frames. well_formed fr \<and> alloc_ok ?env (length (snd fr))"
    using wf by simp
  have c1: "concat (map snd ?whole) = concat (map encode_frame ?frames)"
    by (simp add: encode_frame_def large_flag_def)
  have c2: "concat (map snd ?bytes) = concat (map encode_frame ?frames)"
    by (simp add: encode_frame_def large_flag_def)
  have b: "\<forall>c \<in> set ?whole \<union> set ?bytes.
             fst c + length (snd c) + length (concat (map encode_frame ?frames))
               < 2 ^ size_t_bits ?env"
    by (simp add: encode_frame_def large_flag_def)
  have t: "\<forall>fr \<in> set ?frames. \<not> too_large (-1) (size_t_bits ?env) (length (snd fr))"
    by (simp add: too_large_def)
  have m: "map msg_view (fst (feed_chunks ?env ?d0 ?whole))
             = [(1, 3, [0x41, 0x42, 0x43]), (0, 2, [0x44, 0x45])]"
    by code_simp
  from chunking_independent [OF a c1 c2 b, of "-1" True ENONE] t
  have eq: "map msg_view (fst (feed_chunks ?env ?d0 ?whole))
           = map msg_view (fst (feed_chunks ?env ?d0 ?bytes))"
    and rc: "fst (snd (feed_chunks ?env ?d0 ?whole)) = fst (snd (feed_chunks ?env ?d0 ?bytes))"
    and r0: "fst (snd (feed_chunks ?env ?d0 ?whole)) = Ret 0"
    by blast+
  from eq [symmetric] m
  have m2: "map msg_view (fst (feed_chunks ?env ?d0 ?bytes))
              = [(1, 3, [0x41, 0x42, 0x43]), (0, 2, [0x44, 0x45])]"
    by (rule trans)
  from rc [symmetric] r0 have r2: "fst (snd (feed_chunks ?env ?d0 ?bytes)) = Ret 0"
    by (rule trans)
  show ?thesis
    by (intro conjI) (fact wf c1 c2 m m2 r2)+
qed

subsection \<open>The eight-byte size header\<close>

lemma be_nat8:
  "be_nat [b0, b1, b2, b3, b4, b5, b6, b7] =
     2 ^ 56 * unat b0 + 2 ^ 48 * unat b1 + 2 ^ 40 * unat b2 + 2 ^ 32 * unat b3 +
     2 ^ 24 * unat b4 + 2 ^ 16 * unat b5 + 2 ^ 8 * unat b6 + unat b7"
  by (simp add: be_nat_def)

lemma header_copy:
  assumes "length (tmpbuf d) = 8" and "length acc + length xs \<le> 8"
  shows "copy_bytes (header_state d fb acc) xs = header_state d fb (acc @ xs)"
  using assms by (simp add: copy_bytes_def header_state_def write_at_def add.commute)

lemma header_flags:
  assumes "next_fn d = flags_ready_step" and "to_read d = 1" and "read_pos d = in_tmpbuf 0"
    and "fb AND large_flag \<noteq> 0"
  shows "decode_loop env d pos (fb # xs) = decode_loop env (header_state d fb []) (pos + 1) xs"
proof -
  let ?d1 = "copy_bytes d [fb]"
  have 1: "decode_loop env d pos (fb # xs) = decode_loop env ?d1 (pos + 1) xs"
    using decode_loop_copy [of d "fb # xs" env pos] assms(2) by simp
  have t: "tmpbuf ?d1 = fb # drop 1 (tmpbuf d)" "to_read ?d1 = 0" "next_fn ?d1 = flags_ready_step"
    using assms by (simp_all add: copy_bytes_def write_at_def)
  have "flags_ready ?d1 = (Ret 0, header_state d fb [])"
    using assms
    by (simp add: flags_ready_def Let_def next_step_def header_state_def copy_bytes_def
          write_at_def)
  then have cn: "call_next env ?d1 (pos + 1) xs = (Ret 0, header_state d fb [])"
    using t(3) by (simp add: call_next_def)
  have 2: "decode_loop env ?d1 (pos + 1) xs = decode_loop env (header_state d fb []) (pos + 1) xs"
    using t(2) cn by (rule decode_loop_run)
  from 1 2 show ?thesis by simp
qed

lemma header_more:
  assumes "length (tmpbuf d) = 8" and "length acc + length xs < 8"
  shows "decode_loop env (header_state d fb acc) pos xs
           = (Ret 0, [], header_state d fb (acc @ xs))"
proof (cases "xs = []")
  case True
  have "0 < to_read (header_state d fb acc)"
    using assms(2) by (simp add: header_state_def)
  then show ?thesis using True by (simp add: decode_loop_empty)
next
  case False
  let ?h = "header_state d fb acc"
  have tr: "to_read ?h = 8 - length acc" by (simp add: header_state_def)
  with assms(2) have k: "min (to_read ?h) (length xs) = length xs" and pos: "0 < to_read ?h"
    by simp_all
  have "decode_loop env ?h pos xs
          = decode_loop env (copy_bytes ?h xs) (pos + length xs) []"
    using decode_loop_copy [OF pos False, of env pos] k by simp
  also have "copy_bytes ?h xs = header_state d fb (acc @ xs)"
    using assms by (simp add: header_copy)
  also have "decode_loop env (header_state d fb (acc @ xs)) (pos + length xs) []
               = (Ret 0, [], header_state d fb (acc @ xs))"
    using assms(2) by (intro decode_loop_empty) (simp add: header_state_def)
  finally show ?thesis .
qed

lemma header_done:
  assumes "length (tmpbuf d) = 8" and "length acc + length pre = 8" and "pre \<noteq> []"
  shows "decode_loop env (header_state d fb acc) pos (pre @ rest) =
           (case size_ready env (header_state d fb (acc @ pre)) (get_uint64 (acc @ pre))
                   (pos + length pre) rest of
              (rc, d') \<Rightarrow>
                if rc \<noteq> Ret 0 then (rc, rest, d')
                else decode_loop env d' (pos + length pre) rest)"
proof -
  let ?h = "header_state d fb acc"
  let ?h8 = "header_state d fb (acc @ pre)"
  have tr: "to_read ?h = 8 - length acc" by (simp add: header_state_def)
  with assms(2,3) have k: "min (to_read ?h) (length (pre @ rest)) = length pre"
    and pos: "0 < to_read ?h"
    by (cases pre, simp_all)+
  have ne: "pre @ rest \<noteq> []" using assms(3) by simp
  have "decode_loop env ?h pos (pre @ rest)
          = decode_loop env (copy_bytes ?h pre) (pos + length pre) rest"
    using decode_loop_copy [OF pos ne, of env pos] k by simp
  also have "copy_bytes ?h pre = ?h8"
    using assms(1,2) by (simp add: header_copy)
  finally have 1: "decode_loop env ?h pos (pre @ rest) = decode_loop env ?h8 (pos + length pre) rest" .
  have h8: "to_read ?h8 = 0" "next_fn ?h8 = eight_byte_size_ready_step" "tmpbuf ?h8 = acc @ pre"
    using assms(1,2) by (simp_all add: header_state_def)
  have cn: "call_next env ?h8 (pos + length pre) rest
              = size_ready env ?h8 (get_uint64 (acc @ pre)) (pos + length pre) rest"
    using h8(2,3) by (simp add: call_next_def eight_byte_size_ready_def)
  show ?thesis
    unfolding 1 using h8(1) cn by (subst decode_loop.simps) simp
qed

lemma header_feed:
  assumes bd: "next_fn d = flags_ready_step" "to_read d = 1" "read_pos d = in_tmpbuf 0"
      "length (tmpbuf d) = 8"
    and large: "fb AND large_flag \<noteq> 0"
    and split: "p @ c @ q = fb # hdr" "q \<noteq> []" "length hdr = 8"
  shows "feed env (header_progress d p) pos c = ([], Ret 0, header_progress d (p @ c))"
proof (cases "c = []")
  case True
  then show ?thesis by (simp add: feed.simps)
next
  case False
  have len: "length p + length c + length q = 9"
    using split(1,3) by (metis length_append length_Cons add.assoc numeral_eq_Suc
        Suc_eq_plus1 eval_nat_numeral(3) add_Suc_right pred_numeral_simps(3) One_nat_def
        semiring_norm(26,27) numeral_One append.assoc)
  have dl: "decode_loop env (header_progress d p) pos c = (Ret 0, [], header_progress d (p @ c))"
  proof (cases p)
    case Nil
    with split(1) False obtain xs where c: "c = fb # xs" by (cases c) auto
    from len split(2) Nil c have short: "length [] + length xs < 8" by (cases q) auto
    have "decode_loop env d pos (fb # xs) = decode_loop env (header_state d fb []) (pos + 1) xs"
      using bd(1,2,3) large by (rule header_flags)
    also have "\<dots> = (Ret 0, [], header_state d fb ([] @ xs))"
      using bd(4) short by (rule header_more)
    finally show ?thesis using Nil c by (simp add: header_progress_def)
  next
    case (Cons b acc)
    with split(1) have b: "b = fb" by simp
    from len split(2) Cons have short: "length acc + length c < 8" by (cases q) auto
    have "decode_loop env (header_state d fb acc) pos c
            = (Ret 0, [], header_state d fb (acc @ c))"
      using bd(4) short by (rule header_more)
    then show ?thesis using Cons b by (simp add: header_progress_def)
  qed
  then have "decode env (header_progress d p) pos c
               = (Ret 0, length c, header_progress d (p @ c))"
    by (simp add: decode_def)
  with False show ?thesis by (subst feed.simps) simp
qed

lemma header_chunks:
  assumes bd: "next_fn d = flags_ready_step" "to_read d = 1" "read_pos d = in_tmpbuf 0"
      "length (tmpbuf d) = 8"
    and large: "fb AND large_flag \<noteq> 0"
    and split: "p @ concat (map snd cs) @ q = fb # hdr" "q \<noteq> []" "length hdr = 8"
  shows "feed_chunks env (header_progress d p) cs
           = ([], Ret 0, header_progress d (p @ concat (map snd cs)))"
  using split(1)
proof (induction cs arbitrary: p)
  case Nil
  then show ?case by simp
next
  case (Cons c cs)
  from Cons.prems have s1: "p @ snd c @ (concat (map snd cs) @ q) = fb # hdr" by simp
  have q': "concat (map snd cs) @ q \<noteq> []" using split(2) by simp
  have 1: "feed env (header_progress d p) (fst c) (snd c)
             = ([], Ret 0, header_progress d (p @ snd c))"
    using bd large s1 q' split(3) by (rule header_feed)
  from Cons.prems have "(p @ snd c) @ concat (map snd cs) @ q = fb # hdr" by simp
  from Cons.IH [OF this] 1 show ?case by simp
qed

lemma header_last:
  assumes bd: "next_fn d = flags_ready_step" "to_read d = 1" "read_pos d = in_tmpbuf 0"
      "length (tmpbuf d) = 8"
    and large: "fb AND large_flag \<noteq> 0"
    and split: "p @ pre = fb # hdr" "pre \<noteq> []" "length hdr = 8"
  shows "decode_loop env (header_progress d p) pos (pre @ rest) =
           (case size_ready env (header_state d fb hdr) (get_uint64 hdr)
                   (pos + length pre) rest of
              (rc, d') \<Rightarrow>
                if rc \<noteq> Ret 0 then (rc, rest, d')
                else decode_loop env d' (pos + length pre) rest)"
proof (cases p)
  case Nil
  with split(1) have pre: "pre = fb # hdr" by simp
  have l: "pos + 1 + length hdr = pos + length pre" using pre by simp
  have "decode_loop env d pos (fb # hdr @ rest)
          = decode_loop env (header_state d fb []) (pos + 1) (hdr @ rest)"
    using bd(1,2,3) large by (rule header_flags)
  also have "\<dots> = (case size_ready env (header_state d fb ([] @ hdr)) (get_uint64 ([] @ hdr))
                 (pos + 1 + length hdr) rest of
            (rc, d') \<Rightarrow>
              if rc \<noteq> Ret 0 then (rc, rest, d')
              else decode_loop env d' (pos + 1 + length hdr) rest)"
    using split(3) by (intro header_done [OF bd(4)]) auto
  finally have "decode_loop env d pos (fb # hdr @ rest) =
           (case size_ready env (header_state d fb hdr) (get_uint64 hdr)
                   (pos + length pre) rest of
              (rc, d') \<Rightarrow>
                if rc \<noteq> Ret 0 then (rc, rest, d')
                else decode_loop env d' (pos + length pre) rest)"
    unfolding l by simp
  then show ?thesis unfolding Nil pre by (simp add: header_progress_def)
next
  case (Cons b acc)
  with split(1) have b: "b = fb" and hdr: "acc @ pre = hdr" by simp_all
  from hdr split(3) have len: "length acc + length pre = 8" by auto
  from header_done [OF bd(4) len split(2), of env fb pos rest] Cons b hdr
  show ?thesis by (simp add: header_progress_def)
qed

lemma header_run:
  assumes bd: "next_fn d = flags_ready_step" "to_read d = 1" "read_pos d = in_tmpbuf 0"
      "length (tmpbuf d) = 8"
    and large: "fb AND large_flag \<noteq> 0"
    and split: "concat (map snd cs) @ pre = fb # hdr" "pre \<noteq> []" "length hdr = 8"
  shows "feed_chunks env d cs = ([], Ret 0, header_progress d (concat (map snd cs)))"
proof -
  have d: "header_progress d [] = d" by (simp add: header_progress_def)
  have "[] @ concat (map snd cs) @ pre = fb # hdr" using split(1) by simp
  from header_chunks [OF bd large this split(2,3), of env] d
  show ?thesis by simp
qed

lemma hello_frame:
  "encode_frame (0x02, [0x48, 0x65, 0x6c, 0x6c, 0x6f])
     = [0x02, 0, 0, 0, 0, 0, 0, 0, 5, 0x48, 0x65, 0x6c, 0x6c, 0x6f]"
  by code_simp

text \<open>
  Claim C7.  The eight bytes after a flags byte with the \<open>LARGE\<close> bit are read as one
  unsigned 64-bit number, most significant byte first.  With \<open>v\<close> the big-endian value
  of the bytes \<open>b0 \<dots> b7\<close>: \<open>get_uint64\<close> returns \<open>v\<close>; \<open>eight_byte_size_ready\<close>, in
  any decoder whose \<open>tmpbuf\<close> holds these bytes, is \<open>size_ready\<close> on the size \<open>v\<close>; and
  a decoder at any frame boundary that receives a flags byte with \<open>LARGE\<close> set followed
  by these bytes, in any chunking and whatever follows them, yields no message on the
  way, has the eight bytes in \<open>tmpbuf\<close> and the flags of the flags byte in \<open>msg_flags\<close>
  when the last of them arrives, and then runs \<open>size_ready\<close> on the size \<open>v\<close>, zero
  included, at the address of the byte that follows.  The frame
  \<open>02 00 00 00 00 00 00 00 05 48 65 6c 6c 6f\<close>, whose size would fit one byte, fed to
  a fresh decoder in any chunking, yields exactly one message, flags 0 and payload
  \<open>Hello\<close>, when a five-byte allocation succeeds, the size limit admits five bytes and
  no chunk ends within five bytes of the top of the address space.
\<close>

theorem large_size_header:
  assumes v: "v = 2 ^ 56 * unat b0 + 2 ^ 48 * unat b1 + 2 ^ 40 * unat b2 + 2 ^ 32 * unat b3 +
                  2 ^ 24 * unat b4 + 2 ^ 16 * unat b5 + 2 ^ 8 * unat b6 + unat b7"
  shows "unat (get_uint64 [b0, b1, b2, b3, b4, b5, b6, b7]) = v
    \<and> (tmpbuf dh = [b0, b1, b2, b3, b4, b5, b6, b7] \<longrightarrow>
        eight_byte_size_ready env dh a w = size_ready env dh (of_nat v) a w)
    \<and> (next_fn d = flags_ready_step \<and> to_read d = 1 \<and> read_pos d = in_tmpbuf 0
          \<and> length (tmpbuf d) = 8 \<and> fb AND large_flag \<noteq> 0
          \<and> concat (map snd cs) @ pre = [fb, b0, b1, b2, b3, b4, b5, b6, b7] \<and> pre \<noteq> [] \<longrightarrow>
        fst (feed_chunks env d cs) = [] \<and> fst (snd (feed_chunks env d cs)) = Ret 0
        \<and> decode_loop env (snd (snd (feed_chunks env d cs))) pos (pre @ rest) =
            (case size_ready env
                    (d\<lparr>next_fn := eight_byte_size_ready_step, read_pos := in_tmpbuf 8,
                       to_read := 0, tmpbuf := [b0, b1, b2, b3, b4, b5, b6, b7],
                       msg_flags := wire_flags fb\<rparr>)
                    (of_nat v) (pos + length pre) rest of
               (rc, d') \<Rightarrow>
                 if rc \<noteq> Ret 0 then (rc, rest, d')
                 else decode_loop env d' (pos + length pre) rest))
    \<and> (alloc_ok env 5 \<and> \<not> too_large mx (size_t_bits env) 5
          \<and> concat (map snd hs) = [0x02, 0, 0, 0, 0, 0, 0, 0, 5, 0x48, 0x65, 0x6c, 0x6c, 0x6f]
          \<and> (\<forall>c \<in> set hs. fst c + length (snd c) + 5 < 2 ^ size_t_bits env) \<longrightarrow>
        map msg_view (fst (feed_chunks env (v2_decoder_init mx zc e) hs))
          = [(0, 5, [0x48, 0x65, 0x6c, 0x6c, 0x6f])]
        \<and> fst (snd (feed_chunks env (v2_decoder_init mx zc e) hs)) = Ret 0)"
proof (intro conjI impI)
  let ?hdr = "[b0, b1, b2, b3, b4, b5, b6, b7]"
  show u: "unat (get_uint64 ?hdr) = v"
    unfolding v by (simp only: get_uint64_be be_nat8)
  have "(of_nat (unat (get_uint64 ?hdr)) :: 64 word) = get_uint64 ?hdr" by simp
  then have g: "get_uint64 ?hdr = of_nat v" unfolding u by simp
  show "eight_byte_size_ready env dh a w = size_ready env dh (of_nat v) a w"
    if "tmpbuf dh = ?hdr"
    using that g by (simp add: eight_byte_size_ready_def)
  assume a: "next_fn d = flags_ready_step \<and> to_read d = 1 \<and> read_pos d = in_tmpbuf 0
          \<and> length (tmpbuf d) = 8 \<and> fb AND large_flag \<noteq> 0
          \<and> concat (map snd cs) @ pre = [fb, b0, b1, b2, b3, b4, b5, b6, b7] \<and> pre \<noteq> []"
  then have bd: "next_fn d = flags_ready_step" "to_read d = 1" "read_pos d = in_tmpbuf 0"
      "length (tmpbuf d) = 8"
    and large: "fb AND large_flag \<noteq> 0"
    and split: "concat (map snd cs) @ pre = fb # ?hdr" "pre \<noteq> []"
    by simp_all
  have len: "length ?hdr = 8" by simp
  have fc: "feed_chunks env d cs = ([], Ret 0, header_progress d (concat (map snd cs)))"
    using bd large split len by (rule header_run)
  then show "fst (feed_chunks env d cs) = []" "fst (snd (feed_chunks env d cs)) = Ret 0"
    by simp_all
  have h8: "header_state d fb ?hdr
              = d\<lparr>next_fn := eight_byte_size_ready_step, read_pos := in_tmpbuf 8,
                  to_read := 0, tmpbuf := ?hdr, msg_flags := wire_flags fb\<rparr>"
    using bd(4) by (simp add: header_state_def)
  from header_last [OF bd large split len, of env pos rest]
  show "decode_loop env (snd (snd (feed_chunks env d cs))) pos (pre @ rest) =
            (case size_ready env
                    (d\<lparr>next_fn := eight_byte_size_ready_step, read_pos := in_tmpbuf 8,
                       to_read := 0, tmpbuf := ?hdr, msg_flags := wire_flags fb\<rparr>)
                    (of_nat v) (pos + length pre) rest of
               (rc, d') \<Rightarrow>
                 if rc \<noteq> Ret 0 then (rc, rest, d')
                 else decode_loop env d' (pos + length pre) rest)"
    unfolding fc h8 g by simp
next
  let ?hello = "(0x02, [0x48, 0x65, 0x6c, 0x6c, 0x6f]) :: frame"
  let ?bits = "size_t_bits env"
  let ?d0 = "v2_decoder_init mx zc e"
  assume a: "alloc_ok env 5 \<and> \<not> too_large mx (size_t_bits env) 5
          \<and> concat (map snd hs) = [0x02, 0, 0, 0, 0, 0, 0, 0, 5, 0x48, 0x65, 0x6c, 0x6c, 0x6f]
          \<and> (\<forall>c \<in> set hs. fst c + length (snd c) + 5 < 2 ^ size_t_bits env)"
  then have al: "alloc_ok env 5" and nl: "\<not> too_large mx ?bits 5" by simp_all
  from a have s: "concat (map snd hs) = encode_frame ?hello" by (simp only: hello_frame)
  have wf: "well_formed ?hello" by (simp add: well_formed_def)
  have "n = 5" if "n \<in> set (ref_sizes mx ?bits AwaitFlags (encode_frame ?hello))" for n
    using frame_run(2) [OF wf, of mx ?bits] that by auto
  with al
  have ok: "\<And>n. n \<in> set (ref_sizes mx ?bits AwaitFlags (concat (map snd hs))) \<Longrightarrow>
              alloc_ok env n"
    unfolding s by simp
  obtain ms rc d' where f: "feed_chunks env ?d0 hs = (ms, rc, d')"
    by (cases "feed_chunks env ?d0 hs")
  have run: "ref_run mx ?bits AwaitFlags (concat (map snd hs))
               = ([(0, 5, [0x48, 0x65, 0x6c, 0x6c, 0x6f])], AwaitFlags)"
  proof -
    have l5: "length (snd ?hello) = 5" by simp
    from frame_run(1) [OF wf, of mx ?bits] nl show ?thesis
      unfolding s l5
      by (simp add: frame_view_def wire_flags_def more_flag_def command_flag_def)
  qed
  from feed_chunks_sim [of mx env AwaitFlags hs ?d0, OF ok init_rel] f run
  have "map msg_view ms = [(0, 5, [0x48, 0x65, 0x6c, 0x6c, 0x6f])]" "rc = Ret 0"
    by (auto simp: fed_def)
  then show "map msg_view (fst (feed_chunks env ?d0 hs)) = [(0, 5, [0x48, 0x65, 0x6c, 0x6c, 0x6f])]"
    "fst (snd (feed_chunks env ?d0 hs)) = Ret 0"
    unfolding f by simp_all
qed

theorem large_size_header_witness:
  "(5 :: nat) = 2 ^ 56 * unat (0 :: byte) + 2 ^ 48 * unat (0 :: byte) + 2 ^ 40 * unat (0 :: byte)
       + 2 ^ 32 * unat (0 :: byte) + 2 ^ 24 * unat (0 :: byte) + 2 ^ 16 * unat (0 :: byte)
       + 2 ^ 8 * unat (0 :: byte) + unat (5 :: byte)
   \<and> unat (get_uint64 [0, 0, 0, 0, 0, 0, 0, 5]) = 5
   \<and> eight_byte_size_ready
         \<lparr>size_t_bits = 64, alloc_ok = (\<lambda>n. n < 30), arena_copied = (\<lambda>n. n < 30)\<rparr>
         ((v2_decoder_init (-1) True ENONE)\<lparr>tmpbuf := [0, 0, 0, 0, 0, 0, 0, 5]\<rparr>)
         4105 [0x48, 0x65, 0x6c, 0x6c, 0x6f]
       = size_ready
         \<lparr>size_t_bits = 64, alloc_ok = (\<lambda>n. n < 30), arena_copied = (\<lambda>n. n < 30)\<rparr>
         ((v2_decoder_init (-1) True ENONE)\<lparr>tmpbuf := [0, 0, 0, 0, 0, 0, 0, 5]\<rparr>)
         5 4105 [0x48, 0x65, 0x6c, 0x6c, 0x6f]
   \<and> (2 :: byte) AND large_flag \<noteq> 0
   \<and> concat (map snd [(4096 :: nat, [0x02, 0, 0, 0 :: byte]), (4096, [0, 0, 0])]) @ [0, 5]
       = [0x02, 0, 0, 0, 0, 0, 0, 0, 5]
   \<and> fst (feed_chunks
         \<lparr>size_t_bits = 64, alloc_ok = (\<lambda>n. n < 30), arena_copied = (\<lambda>n. n < 30)\<rparr>
         (v2_decoder_init (-1) True ENONE) [(4096, [0x02, 0, 0, 0]), (4096, [0, 0, 0])]) = []
   \<and> fst (snd (feed_chunks
         \<lparr>size_t_bits = 64, alloc_ok = (\<lambda>n. n < 30), arena_copied = (\<lambda>n. n < 30)\<rparr>
         (v2_decoder_init (-1) True ENONE) [(4096, [0x02, 0, 0, 0]), (4096, [0, 0, 0])])) = Ret 0
   \<and> \<not> too_large (-1) 64 5
   \<and> map msg_view (fst (feed_chunks
         \<lparr>size_t_bits = 64, alloc_ok = (\<lambda>n. n < 30), arena_copied = (\<lambda>n. n < 30)\<rparr>
         (v2_decoder_init (-1) True ENONE)
         [(4096, [0x02, 0, 0, 0, 0, 0, 0, 0, 5, 0x48, 0x65, 0x6c, 0x6c, 0x6f])]))
       = [(0, 5, [0x48, 0x65, 0x6c, 0x6c, 0x6f])]
   \<and> fst (snd (feed_chunks
         \<lparr>size_t_bits = 64, alloc_ok = (\<lambda>n. n < 30), arena_copied = (\<lambda>n. n < 30)\<rparr>
         (v2_decoder_init (-1) True ENONE)
         [(4096, [0x02, 0, 0, 0, 0, 0, 0, 0, 5, 0x48, 0x65, 0x6c, 0x6c, 0x6f])])) = Ret 0"
proof -
  let ?env = "\<lparr>size_t_bits = 64, alloc_ok = (\<lambda>n. n < 30), arena_copied = (\<lambda>n. n < 30)\<rparr>"
  let ?d0 = "v2_decoder_init (-1) True ENONE"
  let ?dh = "?d0\<lparr>tmpbuf := [0, 0, 0, 0, 0, 0, 0, 5]\<rparr>"
  let ?cs = "[(4096 :: nat, [0x02, 0, 0, 0 :: byte]), (4096, [0, 0, 0])]"
  let ?hs = "[(4096 :: nat, [0x02, 0, 0, 0, 0, 0, 0, 0, 5, 0x48, 0x65, 0x6c, 0x6c, 0x6f :: byte])]"
  have v: "(5 :: nat) = 2 ^ 56 * unat (0 :: byte) + 2 ^ 48 * unat (0 :: byte)
       + 2 ^ 40 * unat (0 :: byte) + 2 ^ 32 * unat (0 :: byte) + 2 ^ 24 * unat (0 :: byte)
       + 2 ^ 16 * unat (0 :: byte) + 2 ^ 8 * unat (0 :: byte) + unat (5 :: byte)"
    by simp
  have l: "(2 :: byte) AND large_flag \<noteq> 0" by (simp add: large_flag_def)
  have t: "\<not> too_large (-1) 64 5" by (simp add: too_large_def)
  have c: "concat (map snd ?cs) @ [0, 5] = [0x02, 0, 0, 0, 0, 0, 0, 0, 5]" by simp
  have bd: "next_fn ?d0 = flags_ready_step \<and> to_read ?d0 = 1 \<and> read_pos ?d0 = in_tmpbuf 0
          \<and> length (tmpbuf ?d0) = 8"
    by (simp add: v2_decoder_init_def msg_init_def next_step_def)
  have th: "tmpbuf ?dh = [0, 0, 0, 0, 0, 0, 0, 5]" by simp
  have hyp: "alloc_ok ?env 5 \<and> \<not> too_large (-1) (size_t_bits ?env) 5
          \<and> concat (map snd ?hs) = [0x02, 0, 0, 0, 0, 0, 0, 0, 5, 0x48, 0x65, 0x6c, 0x6c, 0x6f]
          \<and> (\<forall>c \<in> set ?hs. fst c + length (snd c) + 5 < 2 ^ size_t_bits ?env)"
    using t by simp
  note inst = large_size_header [OF v, of ?dh ?env 4105 "[0x48, 0x65, 0x6c, 0x6c, 0x6f]"
      ?d0 2 ?cs "[0, 5]" 4096 "[0x48, 0x65, 0x6c, 0x6c, 0x6f]" "-1" ?hs True ENONE]
  from inst have r1: "unat (get_uint64 [0, 0, 0, 0, 0, 0, 0, 5]) = 5" by (rule conjunct1)
  from inst th have r2: "eight_byte_size_ready ?env ?dh 4105 [0x48, 0x65, 0x6c, 0x6c, 0x6f]
       = size_ready ?env ?dh 5 4105 [0x48, 0x65, 0x6c, 0x6c, 0x6f]"
    by simp
  from inst bd l c have r3: "fst (feed_chunks ?env ?d0 ?cs) = []"
    and r4: "fst (snd (feed_chunks ?env ?d0 ?cs)) = Ret 0"
    by blast+
  from inst hyp
  have r5: "map msg_view (fst (feed_chunks ?env ?d0 ?hs)) = [(0, 5, [0x48, 0x65, 0x6c, 0x6c, 0x6f])]"
    and r6: "fst (snd (feed_chunks ?env ?d0 ?hs)) = Ret 0"
    by blast+
  show ?thesis
    by (intro conjI) (fact v r1 r2 l c r3 r4 t r5 r6)+
qed

end
